theory Spec2Isabelle
  imports Main "HOL-Library.Multiset" "HOL-Library.List_Lexorder" "HOL-Library.Char_ord"
begin

section \<open>The store: Go maps behind references\<close>

text \<open>
  A Go \<^verbatim>\<open>map[E]struct{}\<close> is a reference to a hash table. Several \<^verbatim>\<open>Set\<close> values can
  hold the same reference (a \<^verbatim>\<open>Set\<close> is copied by value, its map is not), so the tables
  live in an explicit store: the table at address \<open>a\<close> is \<open>h ! a\<close>, and \<^verbatim>\<open>make\<close>
  allocates the next free address. A table is the list of its keys (the values are
  \<^verbatim>\<open>struct{}\<close>).

  In the operations of this section the key comparison \<^verbatim>\<open>==\<close> of the element type is
  HOL equality, which is Go's \<^verbatim>\<open>==\<close> on every value that is equal to itself. Go also
  has values that are not equal to themselves (a floating-point NaN, and an array,
  struct or interface value that holds one). The operations that compare keys are
  given a second time, with the comparison explicit, in the section on such keys
  below; \<^verbatim>\<open>Equal\<close>, the deleting methods and the mutations of a set are defined on
  those.
\<close>

type_synonym addr = nat
type_synonym 'e gomap = "'e list"
type_synonym 'e heap = "'e gomap list"

text \<open>
  The order in which a \<^verbatim>\<open>range\<close> statement visits the keys of a map is not specified
  and may differ from one \<^verbatim>\<open>range\<close> statement to the next. A schedule \<open>it\<close> decides it:
  the \<open>k\<close>-th \<^verbatim>\<open>range\<close> over a map that a call executes visits the keys \<open>xs\<close> of the
  map in the order \<open>it k xs\<close>. A schedule is admissible when every \<open>it k xs\<close> is a
  rearrangement of \<open>xs\<close>.
\<close>

type_synonym 'e order = "nat \<Rightarrow> 'e list \<Rightarrow> 'e list"

definition iter_ok :: "'e order \<Rightarrow> bool" where
  "iter_ok it \<longleftrightarrow> (\<forall>k xs. mset (it k xs) = mset xs)"

text \<open>Two concrete schedules: the stored order, and the reversed order rotated by \<open>k\<close>.\<close>

definition it_id :: "'e order" where
  "it_id k xs = xs"

definition it_rev :: "'e order" where
  "it_rev k xs = rotate k (rev xs)"

text \<open>\<^verbatim>\<open>type Set[E comparable] struct { m map[E]struct{}; _ nocmp }\<close>: the field \<^verbatim>\<open>m\<close> is
  \<^verbatim>\<open>nil\<close> (\<open>None\<close>) or a reference into the store; \<^verbatim>\<open>nocmp\<close> has size zero.\<close>

record Set =
  Set_m :: "addr option"

definition zero_Set :: Set where
  "zero_Set = \<lparr>Set_m = None\<rparr>"

subsection \<open>Go's built-in map operations\<close>

text \<open>\<^verbatim>\<open>len(m)\<close>; 0 for a nil map.\<close>

definition map_len :: "'e heap \<Rightarrow> addr option \<Rightarrow> nat" where
  "map_len h p = (case p of None \<Rightarrow> 0 | Some a \<Rightarrow> length (h ! a))"

text \<open>The keys of \<^verbatim>\<open>m\<close>; none for a nil map.\<close>

definition map_keys :: "'e heap \<Rightarrow> addr option \<Rightarrow> 'e list" where
  "map_keys h p = (case p of None \<Rightarrow> [] | Some a \<Rightarrow> h ! a)"

text \<open>\<^verbatim>\<open>_, ok := m[v]\<close>; false for a nil map.\<close>

definition map_has :: "'e heap \<Rightarrow> addr option \<Rightarrow> 'e \<Rightarrow> bool" where
  "map_has h p v = (v \<in> set (map_keys h p))"

text \<open>\<^verbatim>\<open>m[w] = struct{}{}\<close> on the non-nil map at \<open>a\<close>.\<close>

definition map_store :: "'e heap \<Rightarrow> addr \<Rightarrow> 'e \<Rightarrow> 'e heap" where
  "map_store h a w = h[a := (if w \<in> set (h ! a) then h ! a else h ! a @ [w])]"

text \<open>\<^verbatim>\<open>clear(m)\<close>; a no-op on a nil map.\<close>

definition map_clear :: "'e heap \<Rightarrow> addr option \<Rightarrow> 'e heap" where
  "map_clear h p = (case p of None \<Rightarrow> h | Some a \<Rightarrow> h[a := []])"

text \<open>\<^verbatim>\<open>make(map[E]struct{})\<close>: a new empty table at the next free address.\<close>

definition map_make :: "'e heap \<Rightarrow> addr \<times> 'e heap" where
  "map_make h = (length h, h @ [[]])"

text \<open>\<^verbatim>\<open>maps.Clone(m)\<close>: nil for nil, else a new table with the same keys.\<close>

definition maps_Clone :: "'e heap \<Rightarrow> addr option \<Rightarrow> addr option \<times> 'e heap" where
  "maps_Clone h p = (case p of None \<Rightarrow> (None, h) | Some a \<Rightarrow> (Some (length h), h @ [h ! a]))"

text \<open>\<^verbatim>\<open>for v := range m\<close>: the keys of \<open>m\<close> in the order the visit \<open>ord\<close> chooses.\<close>

definition range_map :: "('e list \<Rightarrow> 'e list) \<Rightarrow> 'e heap \<Rightarrow> addr option \<Rightarrow> 'e list" where
  "range_map ord h p = ord (map_keys h p)"

text \<open>A well-formed set: its reference is allocated.\<close>

definition Set_ok :: "'e heap \<Rightarrow> Set \<Rightarrow> bool" where
  "Set_ok h s \<longleftrightarrow> (case Set_m s of None \<Rightarrow> True | Some a \<Rightarrow> a < length h)"

text \<open>The elements of a set, as a mathematical set.\<close>

definition elems :: "'e heap \<Rightarrow> Set \<Rightarrow> 'e set" where
  "elems h s = set (map_keys h (Set_m s))"

section \<open>The Set type (set.go)\<close>

text \<open>\<^verbatim>\<open>func (s Set[E]) IsZero() bool { return s.m == nil }\<close>\<close>

definition IsZero :: "Set \<Rightarrow> bool" where
  "IsZero s = (Set_m s = None)"

text \<open>\<^verbatim>\<open>func (s Set[E]) Size() int { return len(s.m) }\<close>\<close>

definition Size :: "'e heap \<Rightarrow> Set \<Rightarrow> int" where
  "Size h s = int (map_len h (Set_m s))"

text \<open>\<^verbatim>\<open>func (s Set[E]) Contains(v E) bool { _, ok := s.m[v]; return ok }\<close>\<close>

definition Contains :: "'e heap \<Rightarrow> Set \<Rightarrow> 'e \<Rightarrow> bool" where
  "Contains h s v = map_has h (Set_m s) v"

text \<open>
  \<^verbatim>\<open>func (s *Set[E]) Add(v ...E)\<close>: allocate when \<^verbatim>\<open>s.m == nil\<close>, then store each
  \<open>w\<close> of \<open>v\<close>. The receiver is a pointer: the updated \<^verbatim>\<open>Set\<close> value is returned with
  the store.
\<close>

fun Add_loop :: "addr \<Rightarrow> 'e list \<Rightarrow> 'e heap \<Rightarrow> 'e heap" where
  "Add_loop a [] h = h"
| "Add_loop a (w # v) h = Add_loop a v (map_store h a w)"

definition Add :: "Set \<Rightarrow> 'e list \<Rightarrow> 'e heap \<Rightarrow> Set \<times> 'e heap" where
  "Add s v h =
     (case Set_m s of
        None \<Rightarrow> (case map_make h of (a, h1) \<Rightarrow> (s\<lparr>Set_m := Some a\<rparr>, Add_loop a v h1))
      | Some a \<Rightarrow> (s, Add_loop a v h))"

text \<open>\<^verbatim>\<open>func Of[E comparable](v ...E) Set[E] { var s Set[E]; s.Add(v...); return s }\<close>\<close>

definition Of :: "'e list \<Rightarrow> 'e heap \<Rightarrow> Set \<times> 'e heap" where
  "Of v h = Add zero_Set v h"

text \<open>\<^verbatim>\<open>func (s Set[E]) All() iter.Seq[E] { return maps.Keys(s.m) }\<close>, as the sequence of
  keys one traversal yields.\<close>

definition All_go :: "('e list \<Rightarrow> 'e list) \<Rightarrow> 'e heap \<Rightarrow> Set \<Rightarrow> 'e list" where
  "All_go ord h s = range_map ord h (Set_m s)"

text \<open>The loop \<^verbatim>\<open>for v := range seq { r.Add(v) }\<close> of \<^verbatim>\<open>Collect\<close> and \<^verbatim>\<open>Union\<close> (and
  of \<^verbatim>\<open>AddSeq\<close>, which is defined below on the explicit comparison), over the values the
  sequence yields.\<close>

fun Add_each :: "Set \<Rightarrow> 'e list \<Rightarrow> 'e heap \<Rightarrow> Set \<times> 'e heap" where
  "Add_each s [] h = (s, h)"
| "Add_each s (v # seq) h = (case Add s [v] h of (s1, h1) \<Rightarrow> Add_each s1 seq h1)"

section \<open>Keys that are not equal to themselves\<close>

text \<open>
  Go's \<^verbatim>\<open>==\<close> on a comparable type is symmetric and transitive, and it is reflexive
  except on the values named above. A HOL value stands for one class of values that
  are \<^verbatim>\<open>==\<close>, so that \<^verbatim>\<open>x == y\<close> is \<open>x = y\<close> for a value that is equal to itself, and
  false otherwise. The parameter \<open>selfeq\<close> says of each value whether \<^verbatim>\<open>x == x\<close>; for an
  element type whose \<^verbatim>\<open>==\<close> is reflexive it is \<open>\<lambda>x. True\<close>, and the operations below are
  then the operations above.
\<close>

definition go_eq :: "('e \<Rightarrow> bool) \<Rightarrow> 'e \<Rightarrow> 'e \<Rightarrow> bool" where
  "go_eq selfeq x y \<longleftrightarrow> x = y \<and> selfeq x"

text \<open>\<^verbatim>\<open>_, ok := m[v]\<close>: some key of the map is \<^verbatim>\<open>==\<close> to \<open>v\<close>; false for a nil map.\<close>

definition map_has_by :: "('e \<Rightarrow> bool) \<Rightarrow> 'e heap \<Rightarrow> addr option \<Rightarrow> 'e \<Rightarrow> bool" where
  "map_has_by selfeq h p v = list_ex (\<lambda>k. go_eq selfeq k v) (map_keys h p)"

text \<open>\<^verbatim>\<open>m[w] = struct{}{}\<close> on the non-nil map at \<open>a\<close>: a new entry unless a key is
  \<^verbatim>\<open>==\<close> to \<open>w\<close>.\<close>

definition map_store_by :: "('e \<Rightarrow> bool) \<Rightarrow> 'e heap \<Rightarrow> addr \<Rightarrow> 'e \<Rightarrow> 'e heap" where
  "map_store_by selfeq h a w =
     h[a := (if list_ex (\<lambda>k. go_eq selfeq k w) (h ! a) then h ! a else h ! a @ [w])]"

text \<open>\<^verbatim>\<open>delete(m, w)\<close>: removes the key that is \<^verbatim>\<open>==\<close> to \<open>w\<close>; a no-op on a nil map and
  when no key is.\<close>

definition map_delete :: "('e \<Rightarrow> bool) \<Rightarrow> 'e heap \<Rightarrow> addr option \<Rightarrow> 'e \<Rightarrow> 'e heap" where
  "map_delete selfeq h p w =
     (case p of None \<Rightarrow> h | Some a \<Rightarrow> h[a := filter (\<lambda>k. \<not> go_eq selfeq k w) (h ! a)])"

text \<open>A well-formed store: no table holds two keys that are \<^verbatim>\<open>==\<close>, that is, a key that
  is equal to itself occurs once.\<close>

definition heap_ok :: "('e \<Rightarrow> bool) \<Rightarrow> 'e heap \<Rightarrow> bool" where
  "heap_ok selfeq h \<longleftrightarrow> list_all (\<lambda>xs. distinct (filter selfeq xs)) h"

text \<open>\<^verbatim>\<open>Contains\<close>, \<^verbatim>\<open>Add\<close> and the loop \<^verbatim>\<open>for v := range seq { s.Add(v) }\<close> on these
  operations.\<close>

definition Contains_by :: "('e \<Rightarrow> bool) \<Rightarrow> 'e heap \<Rightarrow> Set \<Rightarrow> 'e \<Rightarrow> bool" where
  "Contains_by selfeq h s v = map_has_by selfeq h (Set_m s) v"

fun Add_loop_by :: "('e \<Rightarrow> bool) \<Rightarrow> addr \<Rightarrow> 'e list \<Rightarrow> 'e heap \<Rightarrow> 'e heap" where
  "Add_loop_by selfeq a [] h = h"
| "Add_loop_by selfeq a (w # v) h = Add_loop_by selfeq a v (map_store_by selfeq h a w)"

definition Add_by :: "('e \<Rightarrow> bool) \<Rightarrow> Set \<Rightarrow> 'e list \<Rightarrow> 'e heap \<Rightarrow> Set \<times> 'e heap" where
  "Add_by selfeq s v h =
     (case Set_m s of
        None \<Rightarrow> (case map_make h of (a, h1) \<Rightarrow> (s\<lparr>Set_m := Some a\<rparr>, Add_loop_by selfeq a v h1))
      | Some a \<Rightarrow> (s, Add_loop_by selfeq a v h))"

fun Add_each_by :: "('e \<Rightarrow> bool) \<Rightarrow> Set \<Rightarrow> 'e list \<Rightarrow> 'e heap \<Rightarrow> Set \<times> 'e heap" where
  "Add_each_by selfeq s [] h = (s, h)"
| "Add_each_by selfeq s (v # seq) h =
     (case Add_by selfeq s [v] h of (s1, h1) \<Rightarrow> Add_each_by selfeq s1 seq h1)"

text \<open>\<^verbatim>\<open>func (s *Set[E]) AddSeq(seq iter.Seq[E])\<close>; a sequence is the finite list of the
  values it yields.\<close>

definition AddSeq :: "('e \<Rightarrow> bool) \<Rightarrow> Set \<Rightarrow> 'e list \<Rightarrow> 'e heap \<Rightarrow> Set \<times> 'e heap" where
  "AddSeq selfeq s seq h = Add_each_by selfeq s seq h"

text \<open>\<^verbatim>\<open>func (s Set[E]) Clear() { clear(s.m) }\<close>\<close>

definition Clear :: "Set \<Rightarrow> 'e heap \<Rightarrow> 'e heap" where
  "Clear s h = map_clear h (Set_m s)"

text \<open>\<^verbatim>\<open>func (s Set[E]) Clone() Set[E] { return Set[E]{m: maps.Clone(s.m)} }\<close>\<close>

definition Clone :: "Set \<Rightarrow> 'e heap \<Rightarrow> Set \<times> 'e heap" where
  "Clone s h = (case maps_Clone h (Set_m s) of (p, h1) \<Rightarrow> (\<lparr>Set_m = p\<rparr>, h1))"

text \<open>\<^verbatim>\<open>func (s Set[E]) Delete(v ...E) int\<close>\<close>

fun Delete_loop :: "('e \<Rightarrow> bool) \<Rightarrow> Set \<Rightarrow> 'e list \<Rightarrow> 'e heap \<Rightarrow> 'e heap" where
  "Delete_loop selfeq s [] h = h"
| "Delete_loop selfeq s (w # v) h = Delete_loop selfeq s v (map_delete selfeq h (Set_m s) w)"

definition Delete :: "('e \<Rightarrow> bool) \<Rightarrow> Set \<Rightarrow> 'e list \<Rightarrow> 'e heap \<Rightarrow> int \<times> 'e heap" where
  "Delete selfeq s v h =
     (let ln = int (map_len h (Set_m s));
          h1 = Delete_loop selfeq s v h
      in (ln - int (map_len h1 (Set_m s)), h1))"

text \<open>\<^verbatim>\<open>func (s Set[E]) DeleteFunc(del func(E) bool) int\<close>; a nil function is \<open>None\<close>.\<close>

fun DeleteFunc_loop ::
  "('e \<Rightarrow> bool) \<Rightarrow> Set \<Rightarrow> ('e \<Rightarrow> bool) \<Rightarrow> 'e list \<Rightarrow> 'e heap \<Rightarrow> 'e heap" where
  "DeleteFunc_loop selfeq s del [] h = h"
| "DeleteFunc_loop selfeq s del (v # vs) h =
     (if del v then DeleteFunc_loop selfeq s del vs (map_delete selfeq h (Set_m s) v)
      else DeleteFunc_loop selfeq s del vs h)"

definition DeleteFunc ::
  "('e \<Rightarrow> bool) \<Rightarrow> 'e order \<Rightarrow> Set \<Rightarrow> ('e \<Rightarrow> bool) option \<Rightarrow> 'e heap \<Rightarrow> int \<times> 'e heap" where
  "DeleteFunc selfeq it s del h =
     (case del of
        None \<Rightarrow> (0, h)
      | Some d \<Rightarrow>
          (let ln = int (map_len h (Set_m s));
               h1 = DeleteFunc_loop selfeq s d (range_map (it 0) h (Set_m s)) h
           in (ln - int (map_len h1 (Set_m s)), h1)))"

text \<open>\<^verbatim>\<open>func (s Set[E]) DeleteSeq(seq iter.Seq[E]) int\<close>\<close>

fun DeleteSeq_loop ::
  "('e \<Rightarrow> bool) \<Rightarrow> Set \<Rightarrow> 'e list \<Rightarrow> int \<Rightarrow> 'e heap \<Rightarrow> int \<times> 'e heap" where
  "DeleteSeq_loop selfeq s [] c h = (c, h)"
| "DeleteSeq_loop selfeq s (v # seq) c h =
     (if map_has_by selfeq h (Set_m s) v
      then DeleteSeq_loop selfeq s seq (c + 1) (map_delete selfeq h (Set_m s) v)
      else DeleteSeq_loop selfeq s seq c h)"

definition DeleteSeq :: "('e \<Rightarrow> bool) \<Rightarrow> Set \<Rightarrow> 'e list \<Rightarrow> 'e heap \<Rightarrow> int \<times> 'e heap" where
  "DeleteSeq selfeq s seq h = DeleteSeq_loop selfeq s seq 0 h"

text \<open>\<^verbatim>\<open>func (s Set[E]) Equal(u Set[E]) bool\<close>\<close>

fun Equal_loop :: "('e \<Rightarrow> bool) \<Rightarrow> 'e heap \<Rightarrow> Set \<Rightarrow> 'e list \<Rightarrow> bool" where
  "Equal_loop selfeq h u [] = True"
| "Equal_loop selfeq h u (v # vs) =
     (if \<not> Contains_by selfeq h u v then False else Equal_loop selfeq h u vs)"

definition Equal :: "('e \<Rightarrow> bool) \<Rightarrow> 'e order \<Rightarrow> 'e heap \<Rightarrow> Set \<Rightarrow> Set \<Rightarrow> bool" where
  "Equal selfeq it h s u =
     (if map_len h (Set_m s) \<noteq> map_len h (Set_m u) then False
      else if map_len h (Set_m s) = 0 \<and> map_len h (Set_m u) = 0 then True
      else Equal_loop selfeq h u (range_map (it 0) h (Set_m s)))"

text \<open>Errors: what \<^verbatim>\<open>encoding/json\<close> returns, and the panics of the package.\<close>

datatype error = DecodeError | EncodeError | Panic string

text \<open>
  \<^verbatim>\<open>func (s Set[T]) MarshalJSON() ([]byte, error)\<close>. \<^verbatim>\<open>json.Marshal\<close> belongs to the
  standard library: its encoding of a non-nil slice of elements is the parameter
  \<open>json_Marshal\<close>; \<^verbatim>\<open>json.Marshal(nil)\<close> is the text \<^verbatim>\<open>null\<close>.
\<close>

fun MarshalJSON_loop :: "'e list \<Rightarrow> 'e list \<Rightarrow> 'e list" where
  "MarshalJSON_loop v [] = v"
| "MarshalJSON_loop v (x # xs) = MarshalJSON_loop (v @ [x]) xs"

definition MarshalJSON ::
  "('e list \<Rightarrow> error + string) \<Rightarrow> 'e order \<Rightarrow> 'e heap \<Rightarrow> Set \<Rightarrow> error + string" where
  "MarshalJSON json_Marshal it h s =
     (if Set_m s = None then Inr ''null''
      else json_Marshal (MarshalJSON_loop [] (All_go (it 0) h s)))"

text \<open>\<^verbatim>\<open>func (s Set[E]) Pop() (E, bool)\<close>; \<open>zero\<close> is the zero value of \<open>E\<close>
  (\<^verbatim>\<open>var v E\<close>).\<close>

fun first_or :: "'e \<Rightarrow> 'e list \<Rightarrow> 'e" where
  "first_or z [] = z"
| "first_or z (k # ks) = k"

definition Pop ::
  "('e \<Rightarrow> bool) \<Rightarrow> 'e order \<Rightarrow> 'e \<Rightarrow> Set \<Rightarrow> 'e heap \<Rightarrow> ('e \<times> bool) \<times> 'e heap" where
  "Pop selfeq it zero s h =
     (if map_len h (Set_m s) = 0 then ((zero, False), h)
      else (let v = first_or zero (range_map (it 0) h (Set_m s))
            in ((v, True), map_delete selfeq h (Set_m s) v)))"

text \<open>
  \<^verbatim>\<open>func (s Set[E]) String() string\<close>. \<^verbatim>\<open>fmt.Sprint\<close> on an element is the parameter
  \<open>Sprint\<close>; \<^verbatim>\<open>slices.Sort\<close> sorts strings bytewise, \<^verbatim>\<open>strings.Join\<close> puts the
  separator between neighbours.
\<close>

fun strings_Join :: "string list \<Rightarrow> string \<Rightarrow> string" where
  "strings_Join [] sep = []"
| "strings_Join [x] sep = x"
| "strings_Join (x # y # r) sep = x @ sep @ strings_Join (y # r) sep"

definition String_go :: "('e \<Rightarrow> string) \<Rightarrow> 'e order \<Rightarrow> 'e heap \<Rightarrow> Set \<Rightarrow> string" where
  "String_go Sprint it h s =
     (let p = map Sprint (All_go (it 0) h s)
      in ''{'' @ strings_Join (sort p) '' '' @ ''}'')"

text \<open>
  \<^verbatim>\<open>func (s *Set[T]) UnmarshalJSON(b []byte) error\<close>. \<^verbatim>\<open>json.Unmarshal(b, &i)\<close> with
  \<^verbatim>\<open>var i []T\<close> is the parameter \<open>json_Unmarshal\<close>: an error, or the slice it leaves in
  \<open>i\<close> (\<open>None\<close> for nil). The result is the returned error (\<open>None\<close> for nil), the
  receiver and the store.
\<close>

definition UnmarshalJSON ::
  "(string \<Rightarrow> error + 'e list option) \<Rightarrow> Set \<Rightarrow> string \<Rightarrow> 'e heap
     \<Rightarrow> error option \<times> Set \<times> 'e heap" where
  "UnmarshalJSON json_Unmarshal s b h =
     (case json_Unmarshal b of
        Inl err \<Rightarrow> (Some err, s, h)
      | Inr i \<Rightarrow>
          (case i of
             None \<Rightarrow> (None, s\<lparr>Set_m := None\<rparr>, h)
           | Some vs \<Rightarrow>
               (case Add s vs (Clear s h) of (s1, h1) \<Rightarrow> (None, s1, h1))))"

text \<open>\<^verbatim>\<open>UnmarshalJSON\<close> with the comparison of keys explicit (\<^verbatim>\<open>Add\<close> compares keys).\<close>

definition UnmarshalJSON_by ::
  "('e \<Rightarrow> bool) \<Rightarrow> (string \<Rightarrow> error + 'e list option) \<Rightarrow> Set \<Rightarrow> string \<Rightarrow> 'e heap
     \<Rightarrow> error option \<times> Set \<times> 'e heap" where
  "UnmarshalJSON_by selfeq json_Unmarshal s b h =
     (case json_Unmarshal b of
        Inl err \<Rightarrow> (Some err, s, h)
      | Inr i \<Rightarrow>
          (case i of
             None \<Rightarrow> (None, s\<lparr>Set_m := None\<rparr>, h)
           | Some vs \<Rightarrow>
               (case Add_by selfeq s vs (Clear s h) of (s1, h1) \<Rightarrow> (None, s1, h1))))"

section \<open>Set algebra\<close>

text \<open>\<^verbatim>\<open>func Collect[E comparable](seq iter.Seq[E]) Set[E]\<close>\<close>

definition Collect_go :: "'e list \<Rightarrow> 'e heap \<Rightarrow> Set \<times> 'e heap" where
  "Collect_go seq h = Add_each zero_Set seq h"

text \<open>\<^verbatim>\<open>func Union[E comparable](sets ...Set[E]) Set[E]\<close>; the loop over the \<open>k\<close>-th set
  is the \<open>k\<close>-th \<^verbatim>\<open>range\<close> over a map.\<close>

fun Union_loop :: "'e order \<Rightarrow> nat \<Rightarrow> Set list \<Rightarrow> Set \<Rightarrow> 'e heap \<Rightarrow> Set \<times> 'e heap" where
  "Union_loop it k [] r h = (r, h)"
| "Union_loop it k (s # sets) r h =
     (case Add_each r (range_map (it k) h (Set_m s)) h of
        (r1, h1) \<Rightarrow> Union_loop it (Suc k) sets r1 h1)"

definition Union_go :: "'e order \<Rightarrow> Set list \<Rightarrow> 'e heap \<Rightarrow> Set \<times> 'e heap" where
  "Union_go it sets h = Union_loop it 0 sets zero_Set h"



text \<open>\<^verbatim>\<open>func Intersection[E comparable](sets ...Set[E]) Set[E]\<close>. The inner loop over
  \<^verbatim>\<open>sets[1:]\<close> answers whether the labelled \<^verbatim>\<open>continue\<close> is not taken.\<close>

fun Intersection_inner :: "'e heap \<Rightarrow> Set list \<Rightarrow> 'e \<Rightarrow> bool" where
  "Intersection_inner h [] v = True"
| "Intersection_inner h (s # ss) v =
     (if \<not> Contains h s v then False else Intersection_inner h ss v)"

fun Intersection_loop :: "Set list \<Rightarrow> 'e list \<Rightarrow> Set \<Rightarrow> 'e heap \<Rightarrow> Set \<times> 'e heap" where
  "Intersection_loop rest [] r h = (r, h)"
| "Intersection_loop rest (v # vs) r h =
     (if Intersection_inner h rest v
      then (case Add r [v] h of (r1, h1) \<Rightarrow> Intersection_loop rest vs r1 h1)
      else Intersection_loop rest vs r h)"

definition Intersection :: "'e order \<Rightarrow> Set list \<Rightarrow> 'e heap \<Rightarrow> Set \<times> 'e heap" where
  "Intersection it sets h =
     (if length sets < 2 then (zero_Set, h)
      else (case sets of
              [] \<Rightarrow> (zero_Set, h)
            | s0 # rest \<Rightarrow>
                Intersection_loop rest (range_map (it 0) h (Set_m s0)) zero_Set h))"

section \<open>Extremal values\<close>

text \<open>\<^verbatim>\<open>func Max[E comparableAndOrderable](s Set[E]) E\<close>: the first loop takes the first
  key of one traversal, the second folds \<^verbatim>\<open>max\<close> over another traversal.\<close>

fun Max_loop :: "'e::linorder \<Rightarrow> 'e list \<Rightarrow> 'e" where
  "Max_loop m [] = m"
| "Max_loop m (x # xs) = Max_loop (max m x) xs"

definition Max_go :: "'e order \<Rightarrow> 'e \<Rightarrow> 'e heap \<Rightarrow> Set \<Rightarrow> error + ('e::linorder)" where
  "Max_go it zero h s =
     (if Size h s < 1 then Inl (Panic ''set.Max: empty set'')
      else (let m = first_or zero (All_go (it 0) h s)
            in Inr (Max_loop m (All_go (it 1) h s))))"

text \<open>\<^verbatim>\<open>func MaxFunc[E comparable](s Set[E], cmp func(a, b E) int) E\<close>\<close>

fun MaxFunc_loop :: "('e \<Rightarrow> 'e \<Rightarrow> int) \<Rightarrow> 'e \<Rightarrow> 'e list \<Rightarrow> 'e" where
  "MaxFunc_loop cmp m [] = m"
| "MaxFunc_loop cmp m (x # xs) = MaxFunc_loop cmp (if cmp x m > 0 then x else m) xs"

definition MaxFunc ::
  "'e order \<Rightarrow> 'e \<Rightarrow> 'e heap \<Rightarrow> Set \<Rightarrow> ('e \<Rightarrow> 'e \<Rightarrow> int) \<Rightarrow> error + 'e" where
  "MaxFunc it zero h s cmp =
     (if Size h s < 1 then Inl (Panic ''set.MaxFunc: empty set'')
      else (let m = first_or zero (All_go (it 0) h s)
            in Inr (MaxFunc_loop cmp m (All_go (it 1) h s))))"

text \<open>\<^verbatim>\<open>func Min[E comparableAndOrderable](s Set[E]) E\<close>\<close>

fun Min_loop :: "'e::linorder \<Rightarrow> 'e list \<Rightarrow> 'e" where
  "Min_loop m [] = m"
| "Min_loop m (x # xs) = Min_loop (min m x) xs"

definition Min_go :: "'e order \<Rightarrow> 'e \<Rightarrow> 'e heap \<Rightarrow> Set \<Rightarrow> error + ('e::linorder)" where
  "Min_go it zero h s =
     (if Size h s < 1 then Inl (Panic ''set.Min: empty set'')
      else (let m = first_or zero (All_go (it 0) h s)
            in Inr (Min_loop m (All_go (it 1) h s))))"

text \<open>\<^verbatim>\<open>func MinFunc[E comparable](s Set[E], cmp func(a, b E) int) E\<close>\<close>

fun MinFunc_loop :: "('e \<Rightarrow> 'e \<Rightarrow> int) \<Rightarrow> 'e \<Rightarrow> 'e list \<Rightarrow> 'e" where
  "MinFunc_loop cmp m [] = m"
| "MinFunc_loop cmp m (x # xs) = MinFunc_loop cmp (if cmp x m < 0 then x else m) xs"

definition MinFunc ::
  "'e order \<Rightarrow> 'e \<Rightarrow> 'e heap \<Rightarrow> Set \<Rightarrow> ('e \<Rightarrow> 'e \<Rightarrow> int) \<Rightarrow> error + 'e" where
  "MinFunc it zero h s cmp =
     (if Size h s < 1 then Inl (Panic ''set.MinFunc: empty set'')
      else (let m = first_or zero (All_go (it 0) h s)
            in Inr (MinFunc_loop cmp m (All_go (it 1) h s))))"

section \<open>Mutations of a set\<close>

text \<open>Every method of the package that changes a set or its map, with its arguments
  (\<open>MUnmarshalJSON\<close> carries the bytes to decode).\<close>

datatype 'e mutation =
    MAdd "'e list"
  | MAddSeq "'e list"
  | MClear
  | MDelete "'e list"
  | MDeleteFunc "('e \<Rightarrow> bool) option"
  | MDeleteSeq "'e list"
  | MPop
  | MUnmarshalJSON string

text \<open>One call of a mutating method on the set variable \<open>c\<close>; the values the method
  returns are dropped.\<close>

fun mutate ::
  "('e \<Rightarrow> bool) \<Rightarrow> 'e order \<Rightarrow> 'e \<Rightarrow> (string \<Rightarrow> error + 'e list option) \<Rightarrow> 'e mutation
     \<Rightarrow> Set \<times> 'e heap \<Rightarrow> Set \<times> 'e heap" where
  "mutate selfeq it zero dec (MAdd v) (c, h) = Add_by selfeq c v h"
| "mutate selfeq it zero dec (MAddSeq seq) (c, h) = AddSeq selfeq c seq h"
| "mutate selfeq it zero dec MClear (c, h) = (c, Clear c h)"
| "mutate selfeq it zero dec (MDelete v) (c, h) = (c, snd (Delete selfeq c v h))"
| "mutate selfeq it zero dec (MDeleteFunc del) (c, h) = (c, snd (DeleteFunc selfeq it c del h))"
| "mutate selfeq it zero dec (MDeleteSeq seq) (c, h) = (c, snd (DeleteSeq selfeq c seq h))"
| "mutate selfeq it zero dec MPop (c, h) = (c, snd (Pop selfeq it zero c h))"
| "mutate selfeq it zero dec (MUnmarshalJSON b) (c, h) = snd (UnmarshalJSON_by selfeq dec c b h)"

fun mutate_all ::
  "('e \<Rightarrow> bool) \<Rightarrow> 'e order \<Rightarrow> 'e \<Rightarrow> (string \<Rightarrow> error + 'e list option) \<Rightarrow> 'e mutation list
     \<Rightarrow> Set \<times> 'e heap \<Rightarrow> Set \<times> 'e heap" where
  "mutate_all selfeq it zero dec [] ch = ch"
| "mutate_all selfeq it zero dec (x # xs) ch =
     mutate_all selfeq it zero dec xs (mutate selfeq it zero dec x ch)"

section \<open>A JSON codec for slices of int\<close>

text \<open>
  What \<^verbatim>\<open>encoding/json\<close> does for \<^verbatim>\<open>[]int\<close> (64-bit \<^verbatim>\<open>int\<close>), to run the
  serialization functions on concrete sets of integers. \<^verbatim>\<open>json.Unmarshal\<close> into a nil
  \<^verbatim>\<open>[]int\<close> succeeds exactly on the text \<^verbatim>\<open>null\<close> (the slice stays nil) and on an array
  whose elements are integer literals in range or \<^verbatim>\<open>null\<close> (which leaves the element 0),
  with JSON whitespace around the tokens; on every other text it returns an error.
  Such an array has no comma inside an element, so its elements are the pieces between
  the commas.
\<close>

definition is_ws :: "char \<Rightarrow> bool" where
  "is_ws c \<longleftrightarrow> c = CHR '' '' \<or> c = CHR 0x09 \<or> c = CHR 0x0A \<or> c = CHR 0x0D"

definition trim :: "string \<Rightarrow> string" where
  "trim cs = rev (dropWhile is_ws (rev (dropWhile is_ws cs)))"

fun split_commas :: "string \<Rightarrow> string \<Rightarrow> string list" where
  "split_commas acc [] = [rev acc]"
| "split_commas acc (c # cs) =
     (if c = CHR '','' then rev acc # split_commas [] cs else split_commas (c # acc) cs)"

definition is_digit :: "char \<Rightarrow> bool" where
  "is_digit c \<longleftrightarrow> CHR ''0'' \<le> c \<and> c \<le> CHR ''9''"

definition digit_val :: "char \<Rightarrow> int" where
  "digit_val c = int (of_char c) - 48"

text \<open>A JSON number without fraction and exponent: an optional minus sign, then \<^verbatim>\<open>0\<close> or
  digits that do not start with \<^verbatim>\<open>0\<close>.\<close>

definition nat_lit :: "string \<Rightarrow> int option" where
  "nat_lit ds =
     (case ds of
        [] \<Rightarrow> None
      | d # r \<Rightarrow>
          if \<not> list_all is_digit ds then None
          else if d = CHR ''0'' \<and> r \<noteq> [] then None
          else Some (foldl (\<lambda>n c. 10 * n + digit_val c) 0 ds))"

definition int_lit :: "string \<Rightarrow> int option" where
  "int_lit cs =
     (case cs of
        [] \<Rightarrow> None
      | c # r \<Rightarrow> if c = CHR ''-'' then map_option uminus (nat_lit r) else nat_lit cs)"

definition elem_int :: "string \<Rightarrow> int option" where
  "elem_int p =
     (if p = ''null'' then Some 0
      else (case int_lit p of
              None \<Rightarrow> None
            | Some n \<Rightarrow> if - (2 ^ 63) \<le> n \<and> n \<le> 2 ^ 63 - 1 then Some n else None))"

definition json_Unmarshal_int :: "string \<Rightarrow> error + int list option" where
  "json_Unmarshal_int b =
     (let t = trim b in
      if t = ''null'' then Inr None
      else (case t of
              [] \<Rightarrow> Inl DecodeError
            | c # r \<Rightarrow>
                if c = CHR ''['' \<and> r \<noteq> [] \<and> last r = CHR '']''
                then (if trim (butlast r) = [] then Inr (Some [])
                      else (case those (map (\<lambda>p. elem_int (trim p)) (split_commas [] (butlast r))) of
                              None \<Rightarrow> Inl DecodeError
                            | Some vs \<Rightarrow> Inr (Some vs)))
                else Inl DecodeError))"

text \<open>\<^verbatim>\<open>json.Marshal\<close> of a non-nil \<^verbatim>\<open>[]int\<close>: the decimal numbers between brackets,
  separated by commas. The decimal text of an int is also what \<^verbatim>\<open>fmt.Sprint\<close> prints.\<close>

definition digit_char :: "nat \<Rightarrow> char" where
  "digit_char d = char_of (48 + d)"

function show_nat :: "nat \<Rightarrow> string" where
  "show_nat n = (if n < 10 then [digit_char n] else show_nat (n div 10) @ [digit_char (n mod 10)])"
  by pat_completeness auto
termination
  by (relation "measure id") auto

declare show_nat.simps [simp del]

definition Sprint_int :: "int \<Rightarrow> string" where
  "Sprint_int n = (if n < 0 then CHR ''-'' # show_nat (nat (- n)) else show_nat (nat n))"

definition json_Marshal_int :: "int list \<Rightarrow> error + string" where
  "json_Marshal_int v = Inr (''['' @ strings_Join (map Sprint_int v) '','' @ '']'')"

text \<open>
  \<^verbatim>\<open>float64\<close> as far as its \<^verbatim>\<open>==\<close> and its encoding matter here: NaN, which is not equal
  to itself, and \<open>Whole n\<close>, the float64 with the integral value \<open>n\<close> (for \<open>n\<close> of
  magnitude up to \<open>2 ^ 53\<close>). \<^verbatim>\<open>json.Marshal\<close> returns an error on a slice that holds
  NaN and prints a whole value of that magnitude as its decimal number.
\<close>

datatype float64 = NaN | Whole int

definition float64_selfeq :: "float64 \<Rightarrow> bool" where
  "float64_selfeq x \<longleftrightarrow> x \<noteq> NaN"

fun whole_value :: "float64 \<Rightarrow> int" where
  "whole_value (Whole n) = n"
| "whole_value NaN = 0"

definition json_Marshal_float64 :: "float64 list \<Rightarrow> error + string" where
  "json_Marshal_float64 v =
     (if NaN \<in> set v then Inl EncodeError else json_Marshal_int (map whole_value v))"

text \<open>A three-way comparator on integers (\<^verbatim>\<open>cmp.Compare\<close>), and what is asked of a
  comparator: it is antisymmetric in sign, and "not greater" is transitive.\<close>

definition cmp_Compare :: "int \<Rightarrow> int \<Rightarrow> int" where
  "cmp_Compare a b = (if a < b then - 1 else if a > b then 1 else 0)"

definition three_way :: "('e \<Rightarrow> 'e \<Rightarrow> int) \<Rightarrow> bool" where
  "three_way cmp \<longleftrightarrow>
     (\<forall>a b. (cmp a b > 0) = (cmp b a < 0)) \<and>
     (\<forall>a b c. cmp a b \<le> 0 \<and> cmp b c \<le> 0 \<longrightarrow> cmp a c \<le> 0)"

section \<open>Results built by a loop\<close>

text \<open>
  What the loops of \<^verbatim>\<open>Collect\<close>, \<^verbatim>\<open>Union\<close>, \<^verbatim>\<open>Intersection\<close> and \<^verbatim>\<open>Difference\<close> keep
  true of their result variable \<^verbatim>\<open>var r Set[E]\<close>, started on the store \<open>h0\<close>: while
  nothing was added, \<open>r\<close> is the zero set and the store is \<open>h0\<close>; afterwards \<open>r\<close> refers
  to the one table allocated after \<open>h0\<close>, which holds the elements \<open>X\<close> added so far.
\<close>

definition built :: "'e heap \<Rightarrow> 'e set \<Rightarrow> Set \<times> 'e heap \<Rightarrow> bool" where
  "built h0 X rh \<longleftrightarrow>
     (X = {} \<and> rh = (zero_Set, h0)) \<or>
     (X \<noteq> {} \<and> (\<exists>xs. rh = (\<lparr>Set_m = Some (length h0)\<rparr>, h0 @ [xs]) \<and> set xs = X \<and> distinct xs))"

section \<open>Private references and codecs\<close>

text \<open>
  \<open>private_from n (c, h)\<close>: the store \<open>h\<close> has at least \<open>n\<close> tables and the set \<open>c\<close> is
  nil or refers to a table allocated at address \<open>n\<close> or later; \<open>above n p\<close> is the second
  half for a map reference alone.
\<close>

definition private_from :: "nat \<Rightarrow> Set \<times> 'e heap \<Rightarrow> bool" where
  "private_from n ch \<longleftrightarrow>
     n \<le> length (snd ch) \<and>
     (case Set_m (fst ch) of None \<Rightarrow> True | Some a \<Rightarrow> n \<le> a \<and> a < length (snd ch))"

definition above :: "nat \<Rightarrow> addr option \<Rightarrow> bool" where
  "above n p \<longleftrightarrow> (case p of None \<Rightarrow> True | Some a \<Rightarrow> n \<le> a)"

text \<open>\<open>roundtrips enc dec v\<close>: \<^verbatim>\<open>json.Marshal\<close> succeeds on the slice \<open>v\<close> and
  \<^verbatim>\<open>json.Unmarshal\<close> decodes its output to \<open>v\<close> again.\<close>

definition roundtrips ::
  "('e list \<Rightarrow> error + string) \<Rightarrow> (string \<Rightarrow> error + 'e list option) \<Rightarrow> 'e list \<Rightarrow> bool" where
  "roundtrips enc dec v \<longleftrightarrow> (\<exists>b. enc v = Inr b \<and> dec b = Inr (Some v))"

text \<open>The characters of the decimal text of an int: digits and the minus sign.\<close>

definition num_char :: "char \<Rightarrow> bool" where
  "num_char c \<longleftrightarrow> is_digit c \<or> c = CHR ''-''"

section \<open>Schedules\<close>

lemma mset_rotate_eq: "mset (rotate k xs) = mset xs"
proof -
  have "mset (drop n xs @ take n xs) = mset (take n xs @ drop n xs)" for n
    by (simp only: mset_append union_commute)
  then show ?thesis
    by (simp only: rotate_drop_take append_take_drop_id)
qed

lemma iter_ok_id: "iter_ok it_id"
  by (simp add: iter_ok_def it_id_def)

lemma iter_ok_rev: "iter_ok it_rev"
  by (simp add: iter_ok_def it_rev_def mset_rotate_eq)

lemma iter_ok_Nil: "iter_ok it \<Longrightarrow> it k [] = []"
  by (metis iter_ok_def mset_zero_iff)

lemma iter_ok_set: "iter_ok it \<Longrightarrow> set (it k xs) = set xs"
  by (metis iter_ok_def set_mset_mset)

section \<open>Add and the zero set\<close>

text \<open>
  C1, as the claim states it, fails: a just-declared set on which \<^verbatim>\<open>Add\<close> is called with
  no arguments is no longer a zero set, because \<^verbatim>\<open>Add\<close> allocates before it looks at
  its arguments.
\<close>

theorem C1_Add_no_args_counterexample:
  "\<not> IsZero (fst (Add zero_Set ([] :: int list) []))"
  by (simp add: Add_def zero_Set_def map_make_def IsZero_def)

text \<open>
  C1, amended: a just-declared set is a zero set; after any call of \<^verbatim>\<open>Add\<close>, with or
  without arguments, \<^verbatim>\<open>IsZero\<close> is false; \<^verbatim>\<open>Add\<close> with no arguments leaves the
  elements of the set as they were.
\<close>

theorem C1_Add_allocates:
  "IsZero zero_Set \<and>
   \<not> IsZero (fst (Add s v h)) \<and>
   elems (snd (Add s [] h)) (fst (Add s [] h)) = elems h s"
  by (simp add: Add_def IsZero_def zero_Set_def map_make_def elems_def map_keys_def
      split: option.split)

section \<open>Of with no values\<close>

text \<open>
  C9: \<^verbatim>\<open>Of()\<close> with no values returns an allocated empty set: \<^verbatim>\<open>IsZero\<close> is false,
  \<^verbatim>\<open>Size\<close> is 0 and \<^verbatim>\<open>String\<close> is \<^verbatim>\<open>{}\<close>, under every admissible schedule and every
  \<^verbatim>\<open>fmt.Sprint\<close>.
\<close>

theorem C9_Of_empty:
  assumes "iter_ok it"
  shows "\<not> IsZero (fst (Of [] h)) \<and>
         Size (snd (Of [] h)) (fst (Of [] h)) = 0 \<and>
         String_go Sprint it (snd (Of [] h)) (fst (Of [] h)) = ''{}''"
  using iter_ok_Nil [OF assms]
  by (simp add: Of_def Add_def zero_Set_def map_make_def IsZero_def Size_def map_len_def
      String_go_def All_go_def range_map_def map_keys_def)

theorem C9_Of_empty_witness:
  "iter_ok (it_rev :: int order) \<and>
   \<not> IsZero (fst (Of ([] :: int list) [])) \<and>
   Size (snd (Of ([] :: int list) [])) (fst (Of ([] :: int list) [])) = 0 \<and>
   String_go Sprint_int it_rev (snd (Of [] [])) (fst (Of ([] :: int list) [])) = ''{}''"
  using C9_Of_empty [OF iter_ok_rev, of "[] :: int list list" Sprint_int] iter_ok_rev
  by simp

section \<open>The store under Add\<close>

lemma length_map_store [simp]: "length (map_store h a w) = length h"
  by (simp add: map_store_def)

lemma length_Add_loop [simp]: "length (Add_loop a v h) = length h"
  by (induction v arbitrary: h) simp_all

lemma Add_loop_other: "b \<noteq> a \<Longrightarrow> Add_loop a v h ! b = h ! b"
  by (induction v arbitrary: h) (simp_all add: map_store_def)


lemma Add_loop_take: "n \<le> a \<Longrightarrow> take n (Add_loop a v h) = take n h"
  by (induction v arbitrary: h) (simp_all add: map_store_def)

lemma Add_None: "Set_m s = None \<Longrightarrow>
  Add s v h = (s\<lparr>Set_m := Some (length h)\<rparr>, Add_loop (length h) v (h @ [[]]))"
  by (simp add: Add_def map_make_def)


lemma map_keys_append: "Set_ok h s \<Longrightarrow> map_keys (h @ ys) (Set_m s) = map_keys h (Set_m s)"
  by (auto simp: Set_ok_def map_keys_def nth_append split: option.splits)

lemma built_Add1:
  assumes "built h0 X (r, h)"
  shows "built h0 (insert v X) (Add r [v] h)"
proof (cases "X = {}")
  case True
  with assms have "r = zero_Set" "h = h0" by (auto simp: built_def)
  with True show ?thesis
    by (simp add: built_def Add_def zero_Set_def map_make_def map_store_def)
next
  case False
  with assms obtain xs where r: "r = \<lparr>Set_m = Some (length h0)\<rparr>" and h: "h = h0 @ [xs]"
    and xs: "set xs = X" "distinct xs" by (auto simp: built_def)
  show ?thesis
    using xs by (auto simp: built_def r h Add_def map_store_def)
qed

lemma built_Add_each:
  "built h0 X (r, h) \<Longrightarrow> built h0 (X \<union> set vs) (Add_each r vs h)"
proof (induction vs arbitrary: X r h)
  case Nil
  then show ?case by simp
next
  case (Cons v vs)
  obtain r1 h1 where a: "Add r [v] h = (r1, h1)" by (cases "Add r [v] h")
  with built_Add1 [OF Cons.prems, of v] have "built h0 (insert v X) (r1, h1)" by simp
  from Cons.IH [OF this] show ?case by (simp add: a)
qed

lemma built_zero: "built h0 {} (zero_Set, h0)"
  by (simp add: built_def)

lemma built_keys: "built h0 X (r, h) \<Longrightarrow> Set_ok h0 s \<Longrightarrow> map_keys h (Set_m s) = map_keys h0 (Set_m s)"
  by (auto simp: built_def map_keys_append)

lemma built_elems: "built h0 X (r, h) \<Longrightarrow> elems h r = X"
  by (auto simp: built_def elems_def map_keys_def zero_Set_def)

lemma built_IsZero: "built h0 X (r, h) \<Longrightarrow> IsZero r = (X = {})"
  by (auto simp: built_def IsZero_def zero_Set_def)



lemma built_Set_ok_old: "built h0 X (r, h) \<Longrightarrow> Set_ok h0 s \<Longrightarrow> Set_ok h s"
  by (auto simp: built_def Set_ok_def split: option.splits)

lemma built_Union_loop:
  assumes "iter_ok it" "\<forall>s\<in>set sets. Set_ok h0 s" "built h0 X (r, h)"
  shows "built h0 (X \<union> (\<Union>s\<in>set sets. elems h0 s)) (Union_loop it k sets r h)"
  using assms(2,3)
proof (induction sets arbitrary: X r h k)
  case Nil
  then show ?case by simp
next
  case (Cons s sets)
  let ?vs = "range_map (it k) h (Set_m s)"
  have s: "Set_ok h0 s" using Cons.prems by simp
  have vs: "set ?vs = elems h0 s"
    by (simp add: range_map_def iter_ok_set [OF assms(1)] built_keys [OF Cons.prems(2) s] elems_def)
  obtain r1 h1 where a: "Add_each r ?vs h = (r1, h1)" by (cases "Add_each r ?vs h")
  with built_Add_each [OF Cons.prems(2), of ?vs] have "built h0 (X \<union> elems h0 s) (r1, h1)"
    by (simp add: vs)
  from Cons.IH [OF _ this, of "Suc k"] Cons.prems(1)
  show ?case by (simp add: a Un_assoc)
qed

lemma built_Union_go:
  assumes "iter_ok it" "\<forall>s\<in>set sets. Set_ok h0 s"
  shows "built h0 (\<Union>s\<in>set sets. elems h0 s) (Union_go it sets h0)"
  using built_Union_loop [OF assms built_zero, of 0] by (simp add: Union_go_def)

section \<open>Union, Intersection, Difference\<close>

lemma Contains_elems: "Contains h s v = (v \<in> elems h s)"
  by (simp add: Contains_def map_has_def elems_def)

lemma Intersection_inner_iff: "Intersection_inner h ss v = (\<forall>s\<in>set ss. v \<in> elems h s)"
  by (induction ss) (simp_all add: Contains_elems)

lemma built_elems_old: "built h0 X (r, h) \<Longrightarrow> Set_ok h0 s \<Longrightarrow> elems h s = elems h0 s"
  by (simp add: elems_def built_keys)

lemma built_Intersection_loop:
  assumes "\<forall>s\<in>set rest. Set_ok h0 s" "built h0 X (r, h)"
  shows "built h0 (X \<union> {v \<in> set vs. \<forall>s\<in>set rest. v \<in> elems h0 s})
           (Intersection_loop rest vs r h)"
  using assms(2)
proof (induction vs arbitrary: X r h)
  case Nil
  then show ?case by simp
next
  case (Cons v vs)
  have inner: "Intersection_inner h rest v = (\<forall>s\<in>set rest. v \<in> elems h0 s)"
    using assms(1) built_elems_old [OF Cons.prems] by (simp add: Intersection_inner_iff)
  show ?case
  proof (cases "\<forall>s\<in>set rest. v \<in> elems h0 s")
    case True
    obtain r1 h1 where a: "Add r [v] h = (r1, h1)" by (cases "Add r [v] h")
    with built_Add1 [OF Cons.prems, of v] have "built h0 (insert v X) (r1, h1)" by simp
    from Cons.IH [OF this] have
      "built h0 (insert v X \<union> {v \<in> set vs. \<forall>s\<in>set rest. v \<in> elems h0 s})
         (Intersection_loop rest vs r1 h1)" .
    moreover have "insert v X \<union> {v \<in> set vs. \<forall>s\<in>set rest. v \<in> elems h0 s} =
        X \<union> {w \<in> set (v # vs). \<forall>s\<in>set rest. w \<in> elems h0 s}"
      using True by auto
    moreover have "Intersection_inner h rest v" using True inner by blast
    ultimately show ?thesis by (simp add: a)
  next
    case False
    have "X \<union> {w \<in> set (v # vs). \<forall>s\<in>set rest. w \<in> elems h0 s} =
        X \<union> {v \<in> set vs. \<forall>s\<in>set rest. v \<in> elems h0 s}"
      using False by auto
    moreover have "\<not> Intersection_inner h rest v" using False inner by blast
    ultimately show ?thesis using Cons.IH [OF Cons.prems] by simp
  qed
qed


lemma built_Intersection:
  assumes "iter_ok it" "\<forall>s\<in>set sets. Set_ok h s" "2 \<le> length sets"
  shows "built h (\<Inter>s\<in>set sets. elems h s) (Intersection it sets h)"
proof -
  from assms(3) obtain s0 rest where sets: "sets = s0 # rest" by (cases sets) auto
  have rest: "\<forall>s\<in>set rest. Set_ok h s" using assms(2) sets by simp
  have "set (range_map (it 0) h (Set_m s0)) = elems h s0"
    by (simp add: range_map_def iter_ok_set [OF assms(1)] elems_def)
  with built_Intersection_loop [OF rest built_zero, of "range_map (it 0) h (Set_m s0)"]
  have "built h {v \<in> elems h s0. \<forall>s\<in>set rest. v \<in> elems h s}
     (Intersection_loop rest (range_map (it 0) h (Set_m s0)) zero_Set h)" by simp
  moreover have "{v \<in> elems h s0. \<forall>s\<in>set rest. v \<in> elems h s} = (\<Inter>s\<in>set sets. elems h s)"
    using sets by auto
  moreover have "\<not> length sets < 2" using assms(3) by simp
  ultimately show ?thesis by (simp add: Intersection_def sets del: One_nat_def)
qed




text \<open>
  C3, amended: \<^verbatim>\<open>Collect\<close> of an empty sequence returns a zero set, and so do \<^verbatim>\<open>Union\<close>
  and \<^verbatim>\<open>Intersection\<close> whenever their result is empty.
\<close>

theorem C3_zero_results:
  assumes "iter_ok it" "\<forall>s\<in>set sets. Set_ok h s"
  shows "IsZero (fst (Collect_go [] h)) \<and>
         (elems (snd (Union_go it sets h)) (fst (Union_go it sets h)) = {}
            \<longrightarrow> IsZero (fst (Union_go it sets h))) \<and>
         (elems (snd (Intersection it sets h)) (fst (Intersection it sets h)) = {}
            \<longrightarrow> IsZero (fst (Intersection it sets h)))"
proof (intro conjI impI)
  show "IsZero (fst (Collect_go [] h))"
    by (simp add: Collect_go_def IsZero_def zero_Set_def)
next
  assume e: "elems (snd (Union_go it sets h)) (fst (Union_go it sets h)) = {}"
  obtain r h1 where u: "Union_go it sets h = (r, h1)" by (cases "Union_go it sets h")
  with built_Union_go [OF assms] have b: "built h (\<Union>s\<in>set sets. elems h s) (r, h1)" by simp
  from built_elems [OF b] built_IsZero [OF b] e u show "IsZero (fst (Union_go it sets h))"
    by simp
next
  assume e: "elems (snd (Intersection it sets h)) (fst (Intersection it sets h)) = {}"
  show "IsZero (fst (Intersection it sets h))"
  proof (cases "2 \<le> length sets")
    case True
    obtain r h1 where u: "Intersection it sets h = (r, h1)" by (cases "Intersection it sets h")
    with built_Intersection [OF assms True] have b: "built h (\<Inter>s\<in>set sets. elems h s) (r, h1)"
      by simp
    from built_elems [OF b] built_IsZero [OF b] e u show ?thesis by simp
  next
    case False
    then show ?thesis by (simp add: Intersection_def IsZero_def zero_Set_def)
  qed
qed



text \<open>
  C3, as the claim states it, fails: the union of one allocated empty set, and the
  intersection of \<open>{1}\<close> and \<open>{2}\<close>, are empty and are zero sets.
\<close>

theorem C3_zero_results_counterexample:
  "elems (snd (Union_go it_id [\<lparr>Set_m = Some 0\<rparr>] [[] :: int list]))
         (fst (Union_go it_id [\<lparr>Set_m = Some 0\<rparr>] [[] :: int list])) = {} \<and>
   IsZero (fst (Union_go it_id [\<lparr>Set_m = Some 0\<rparr>] [[] :: int list])) \<and>
   elems (snd (Intersection it_id [\<lparr>Set_m = Some 0\<rparr>, \<lparr>Set_m = Some 1\<rparr>] [[1], [2 :: int]]))
         (fst (Intersection it_id [\<lparr>Set_m = Some 0\<rparr>, \<lparr>Set_m = Some 1\<rparr>] [[1], [2 :: int]])) = {} \<and>
   IsZero (fst (Intersection it_id [\<lparr>Set_m = Some 0\<rparr>, \<lparr>Set_m = Some 1\<rparr>] [[1], [2 :: int]]))"
  by (simp add: Union_go_def Intersection_def range_map_def map_keys_def it_id_def
      Contains_def map_has_def IsZero_def zero_Set_def elems_def)

text \<open>C3, amended, at the intersection of \<open>{1}\<close> and \<open>{2}\<close>.\<close>

theorem C3_zero_results_witness:
  "iter_ok (it_rev :: int order) \<and>
   Set_ok [[1], [2 :: int]] \<lparr>Set_m = Some 0\<rparr> \<and>
   Set_ok [[1], [2 :: int]] \<lparr>Set_m = Some 1\<rparr> \<and>
   IsZero (fst (Collect_go [] [[1], [2 :: int]])) \<and>
   IsZero (fst (Intersection it_rev [\<lparr>Set_m = Some 0\<rparr>, \<lparr>Set_m = Some 1\<rparr>] [[1], [2 :: int]]))"
proof -
  have e: "elems (snd (Intersection it_rev [\<lparr>Set_m = Some 0\<rparr>, \<lparr>Set_m = Some 1\<rparr>] [[1], [2 :: int]]))
         (fst (Intersection it_rev [\<lparr>Set_m = Some 0\<rparr>, \<lparr>Set_m = Some 1\<rparr>] [[1], [2 :: int]])) = {}"
    by (simp add: Intersection_def range_map_def map_keys_def it_rev_def
      Contains_def map_has_def zero_Set_def elems_def)
  show ?thesis
    using C3_zero_results [OF iter_ok_rev, of "[\<lparr>Set_m = Some 0\<rparr>, \<lparr>Set_m = Some 1\<rparr>]" "[[1], [2 :: int]]"]
      e iter_ok_rev
    by (simp add: Set_ok_def)
qed

section \<open>Extremal values: proofs\<close>

lemma first_or_mem: "xs \<noteq> [] \<Longrightarrow> first_or z xs \<in> set xs"
  by (cases xs) simp_all

lemma Max_loop_mem: "Max_loop m xs \<in> insert m (set xs)"
  by (induction xs arbitrary: m) (auto simp: max_def)

lemma Max_loop_ge: "m \<le> Max_loop m xs \<and> (\<forall>x\<in>set xs. x \<le> Max_loop m xs)"
proof (induction xs arbitrary: m)
  case Nil
  then show ?case by simp
next
  case (Cons y ys)
  from Cons.IH [of "max m y"] show ?case by (auto simp: max_def split: if_splits)
qed

lemma Min_loop_mem: "Min_loop m xs \<in> insert m (set xs)"
  by (induction xs arbitrary: m) (auto simp: min_def)

lemma Min_loop_le: "Min_loop m xs \<le> m \<and> (\<forall>x\<in>set xs. Min_loop m xs \<le> x)"
proof (induction xs arbitrary: m)
  case Nil
  then show ?case by simp
next
  case (Cons y ys)
  from Cons.IH [of "min m y"] show ?case by (auto simp: min_def split: if_splits)
qed

lemma three_way_refl: "three_way cmp \<Longrightarrow> cmp a a = 0"
  unfolding three_way_def by (metis less_asym not_less_iff_gr_or_eq)

lemma MaxFunc_loop_mem: "MaxFunc_loop cmp m xs \<in> insert m (set xs)"
  by (induction xs arbitrary: m) auto

lemma MinFunc_loop_mem: "MinFunc_loop cmp m xs \<in> insert m (set xs)"
  by (induction xs arbitrary: m) auto

lemma MaxFunc_loop_max:
  assumes "three_way cmp"
  shows "(\<forall>y\<in>S. cmp y m \<le> 0) \<Longrightarrow>
         (\<forall>y\<in>S \<union> {m} \<union> set xs. cmp y (MaxFunc_loop cmp m xs) \<le> 0)"
proof (induction xs arbitrary: m S)
  case Nil
  then show ?case using three_way_refl [OF assms, of m] by simp
next
  case (Cons x xs)
  have tr: "\<And>a b c. cmp a b \<le> 0 \<Longrightarrow> cmp b c \<le> 0 \<Longrightarrow> cmp a c \<le> 0"
    and anti: "\<And>a b. (cmp a b > 0) = (cmp b a < 0)"
    using assms unfolding three_way_def by blast+
  show ?case
  proof (cases "cmp x m > 0")
    case True
    then have mx: "cmp m x \<le> 0" using anti [of x m] by simp
    have "\<forall>y\<in>insert m S. cmp y x \<le> 0"
      using Cons.prems mx tr by blast
    from Cons.IH [OF this] True show ?thesis by simp
  next
    case False
    then have "\<forall>y\<in>insert x S. cmp y m \<le> 0" using Cons.prems by simp
    from Cons.IH [OF this] False show ?thesis by simp
  qed
qed

lemma MinFunc_loop_min:
  assumes "three_way cmp"
  shows "(\<forall>y\<in>S. 0 \<le> cmp y m) \<Longrightarrow>
         (\<forall>y\<in>S \<union> {m} \<union> set xs. 0 \<le> cmp y (MinFunc_loop cmp m xs))"
proof (induction xs arbitrary: m S)
  case Nil
  then show ?case using three_way_refl [OF assms, of m] by simp
next
  case (Cons x xs)
  have tr: "\<And>a b c. cmp a b \<le> 0 \<Longrightarrow> cmp b c \<le> 0 \<Longrightarrow> cmp a c \<le> 0"
    and anti: "\<And>a b. (cmp a b > 0) = (cmp b a < 0)"
    using assms unfolding three_way_def by blast+
  have flip: "\<And>a b. (0 \<le> cmp a b) = (cmp b a \<le> 0)"
    using anti by (metis not_less)
  show ?case
  proof (cases "cmp x m < 0")
    case True
    then have xm: "cmp x m \<le> 0" by simp
    have "\<forall>y\<in>insert m S. 0 \<le> cmp y x"
    proof
      fix y assume "y \<in> insert m S"
      then have "0 \<le> cmp y m" using Cons.prems three_way_refl [OF assms, of m] by auto
      then have "cmp m y \<le> 0" by (simp add: flip)
      with xm have "cmp x y \<le> 0" by (rule tr)
      then show "0 \<le> cmp y x" by (simp add: flip)
    qed
    from Cons.IH [OF this] True show ?thesis by simp
  next
    case False
    then have "\<forall>y\<in>insert x S. 0 \<le> cmp y m" using Cons.prems by simp
    from Cons.IH [OF this] False show ?thesis by simp
  qed
qed

lemma Size_less_1: "(Size h s < 1) = (elems h s = {})"
  by (simp add: Size_def map_len_def elems_def map_keys_def split: option.split)

lemma set_All_go: "iter_ok it \<Longrightarrow> set (All_go (it k) h s) = elems h s"
  by (simp add: All_go_def range_map_def iter_ok_set elems_def)

text \<open>
  C7: on an empty set \<^verbatim>\<open>Max\<close>, \<^verbatim>\<open>Min\<close>, \<^verbatim>\<open>MaxFunc\<close> and \<^verbatim>\<open>MinFunc\<close> panic; on a
  non-empty set they return an element of the set, which no element exceeds
  (respectively, which exceeds no element) in the order of the element type or under
  the three-way comparator. So they panic exactly when the set is empty.
\<close>

theorem C7_extremal:
  fixes h :: "('e::linorder) heap"
  assumes "iter_ok it" "three_way cmp"
  shows "(elems h s = {} \<longrightarrow>
            Max_go it zero h s = Inl (Panic ''set.Max: empty set'') \<and>
            Min_go it zero h s = Inl (Panic ''set.Min: empty set'') \<and>
            MaxFunc it zero h s cmp = Inl (Panic ''set.MaxFunc: empty set'') \<and>
            MinFunc it zero h s cmp = Inl (Panic ''set.MinFunc: empty set'')) \<and>
         (elems h s \<noteq> {} \<longrightarrow>
            (\<exists>m. Max_go it zero h s = Inr m \<and> m \<in> elems h s \<and> (\<forall>x\<in>elems h s. x \<le> m)) \<and>
            (\<exists>m. Min_go it zero h s = Inr m \<and> m \<in> elems h s \<and> (\<forall>x\<in>elems h s. m \<le> x)) \<and>
            (\<exists>m. MaxFunc it zero h s cmp = Inr m \<and> m \<in> elems h s \<and>
                 (\<forall>x\<in>elems h s. cmp x m \<le> 0)) \<and>
            (\<exists>m. MinFunc it zero h s cmp = Inr m \<and> m \<in> elems h s \<and>
                 (\<forall>x\<in>elems h s. 0 \<le> cmp x m)))"
proof (intro conjI impI)
  assume e: "elems h s = {}"
  then have sz: "Size h s < 1" by (simp add: Size_less_1)
  show "Max_go it zero h s = Inl (Panic ''set.Max: empty set'')" using sz by (simp add: Max_go_def)
  show "Min_go it zero h s = Inl (Panic ''set.Min: empty set'')" using sz by (simp add: Min_go_def)
  show "MaxFunc it zero h s cmp = Inl (Panic ''set.MaxFunc: empty set'')"
    using sz by (simp add: MaxFunc_def)
  show "MinFunc it zero h s cmp = Inl (Panic ''set.MinFunc: empty set'')"
    using sz by (simp add: MinFunc_def)
next
  assume ne: "elems h s \<noteq> {}"
  then have sz: "\<not> Size h s < 1" by (simp add: Size_less_1)
  let ?xs = "All_go (it 0) h s" and ?ys = "All_go (it 1) h s"
  have xs: "set ?xs = elems h s" and ys: "set ?ys = elems h s"
    using assms(1) by (simp_all add: set_All_go)
  from ne xs have "?xs \<noteq> []" by auto
  from first_or_mem [OF this, of zero] have f: "first_or zero ?xs \<in> elems h s"
    by (simp only: xs)
  let ?m = "first_or zero ?xs"
  have ins: "insert ?m (set ?ys) = elems h s" using f ys by auto
  show "\<exists>m. Max_go it zero h s = Inr m \<and> m \<in> elems h s \<and> (\<forall>x\<in>elems h s. x \<le> m)"
  proof (intro exI conjI)
    show "Max_go it zero h s = Inr (Max_loop ?m ?ys)"
      using sz by (simp add: Max_go_def Let_def)
    show "Max_loop ?m ?ys \<in> elems h s"
      using Max_loop_mem [of ?m ?ys] by (simp only: ins)
    show "\<forall>x\<in>elems h s. x \<le> Max_loop ?m ?ys"
      using Max_loop_ge [of ?m ?ys] by (simp only: ys) blast
  qed
  show "\<exists>m. Min_go it zero h s = Inr m \<and> m \<in> elems h s \<and> (\<forall>x\<in>elems h s. m \<le> x)"
  proof (intro exI conjI)
    show "Min_go it zero h s = Inr (Min_loop ?m ?ys)"
      using sz by (simp add: Min_go_def Let_def)
    show "Min_loop ?m ?ys \<in> elems h s"
      using Min_loop_mem [of ?m ?ys] by (simp only: ins)
    show "\<forall>x\<in>elems h s. Min_loop ?m ?ys \<le> x"
      using Min_loop_le [of ?m ?ys] by (simp only: ys) blast
  qed
  have all: "{} \<union> {?m} \<union> set ?ys = elems h s" using ins by simp
  show "\<exists>m. MaxFunc it zero h s cmp = Inr m \<and> m \<in> elems h s \<and> (\<forall>x\<in>elems h s. cmp x m \<le> 0)"
  proof (intro exI conjI)
    show "MaxFunc it zero h s cmp = Inr (MaxFunc_loop cmp ?m ?ys)"
      using sz by (simp add: MaxFunc_def Let_def)
    show "MaxFunc_loop cmp ?m ?ys \<in> elems h s"
      using MaxFunc_loop_mem [of cmp ?m ?ys] by (simp only: ins)
    show "\<forall>x\<in>elems h s. cmp x (MaxFunc_loop cmp ?m ?ys) \<le> 0"
      using MaxFunc_loop_max [OF assms(2), of "{}" ?m ?ys] by (simp only: all) simp
  qed
  show "\<exists>m. MinFunc it zero h s cmp = Inr m \<and> m \<in> elems h s \<and> (\<forall>x\<in>elems h s. 0 \<le> cmp x m)"
  proof (intro exI conjI)
    show "MinFunc it zero h s cmp = Inr (MinFunc_loop cmp ?m ?ys)"
      using sz by (simp add: MinFunc_def Let_def)
    show "MinFunc_loop cmp ?m ?ys \<in> elems h s"
      using MinFunc_loop_mem [of cmp ?m ?ys] by (simp only: ins)
    show "\<forall>x\<in>elems h s. 0 \<le> cmp x (MinFunc_loop cmp ?m ?ys)"
      using MinFunc_loop_min [OF assms(2), of "{}" ?m ?ys] by (simp only: all) simp
  qed
qed

lemma three_way_cmp_Compare: "three_way cmp_Compare"
  by (auto simp: three_way_def cmp_Compare_def split: if_splits)

text \<open>C7 at the set \<open>{5, 1, 9, 3}\<close> with \<^verbatim>\<open>cmp.Compare\<close>, and at an allocated empty
  set.\<close>

theorem C7_extremal_witness:
  "iter_ok (it_rev :: int order) \<and> three_way cmp_Compare \<and>
   Max_go it_rev 0 [[5, 1, 9, 3 :: int]] \<lparr>Set_m = Some 0\<rparr> = Inr 9 \<and>
   Min_go it_rev 0 [[5, 1, 9, 3 :: int]] \<lparr>Set_m = Some 0\<rparr> = Inr 1 \<and>
   MaxFunc it_rev 0 [[5, 1, 9, 3 :: int]] \<lparr>Set_m = Some 0\<rparr> cmp_Compare = Inr 9 \<and>
   MinFunc it_rev 0 [[5, 1, 9, 3 :: int]] \<lparr>Set_m = Some 0\<rparr> cmp_Compare = Inr 1 \<and>
   Max_go it_rev 0 [[] :: int list] \<lparr>Set_m = Some 0\<rparr> = Inl (Panic ''set.Max: empty set'')"
proof -
  let ?h = "[[5, 1, 9, 3 :: int]]" and ?s = "\<lparr>Set_m = Some 0\<rparr>"
  have e: "elems ?h ?s = {5, 1, 9, 3}" and e0: "elems [[] :: int list] ?s = {}"
    by (simp_all add: elems_def map_keys_def)
  note full = C7_extremal [OF iter_ok_rev three_way_cmp_Compare, of ?h ?s 0]
  note none = C7_extremal [OF iter_ok_rev three_way_cmp_Compare, of "[[]]" ?s 0]
  have "Max_go it_rev 0 ?h ?s = Inr 9" using full by (auto simp: e)
  moreover have "Min_go it_rev 0 ?h ?s = Inr 1" using full by (auto simp: e)
  moreover have "MaxFunc it_rev 0 ?h ?s cmp_Compare = Inr 9"
    using full by (auto simp: e cmp_Compare_def split: if_splits)
  moreover have "MinFunc it_rev 0 ?h ?s cmp_Compare = Inr 1"
    using full by (auto simp: e cmp_Compare_def split: if_splits)
  moreover have "Max_go it_rev 0 [[] :: int list] ?s = Inl (Panic ''set.Max: empty set'')"
    using none by (simp add: e0)
  ultimately show ?thesis using iter_ok_rev three_way_cmp_Compare by blast
qed

section \<open>Keys compared explicitly\<close>

text \<open>For an element type whose \<^verbatim>\<open>==\<close> is reflexive the operations with the comparison
  explicit are the operations of the first sections.\<close>

lemma go_eq_True [simp]: "go_eq (\<lambda>x. True) x y = (x = y)"
  by (simp add: go_eq_def)

lemma list_ex_go_eq: "list_ex (\<lambda>k. go_eq selfeq k v) xs = (selfeq v \<and> v \<in> set xs)"
  by (auto simp: list_ex_iff go_eq_def)

lemma map_has_by_True: "map_has_by (\<lambda>x. True) h p v = map_has h p v"
  by (simp add: map_has_by_def map_has_def list_ex_iff)

lemma map_store_by_True: "map_store_by (\<lambda>x. True) h a w = map_store h a w"
  by (simp add: map_store_by_def map_store_def list_ex_iff)

lemma Contains_by_True: "Contains_by (\<lambda>x. True) h s v = Contains h s v"
  by (simp add: Contains_by_def Contains_def map_has_by_True)

lemma Add_loop_by_True: "Add_loop_by (\<lambda>x. True) a v h = Add_loop a v h"
  by (induction v arbitrary: h) (simp_all add: map_store_by_True)

lemma Add_by_True: "Add_by (\<lambda>x. True) s v h = Add s v h"
  by (simp add: Add_by_def Add_def Add_loop_by_True split: option.split prod.split)

lemma Add_each_by_True: "Add_each_by (\<lambda>x. True) s vs h = Add_each s vs h"
  by (induction vs arbitrary: s h) (simp_all add: Add_by_True split: prod.split)

lemma UnmarshalJSON_by_True:
  "UnmarshalJSON_by (\<lambda>x. True) dec s b h = UnmarshalJSON dec s b h"
  by (simp add: UnmarshalJSON_by_def UnmarshalJSON_def Add_by_True
      split: sum.split option.split prod.split)

lemma length_map_store_by [simp]: "length (map_store_by selfeq h a w) = length h"
  by (simp add: map_store_by_def)

lemma length_Add_loop_by [simp]: "length (Add_loop_by selfeq a v h) = length h"
  by (induction v arbitrary: h) simp_all

lemma Add_loop_by_other: "b \<noteq> a \<Longrightarrow> Add_loop_by selfeq a v h ! b = h ! b"
  by (induction v arbitrary: h) (simp_all add: map_store_by_def)

lemma set_Add_loop_by:
  "a < length h \<Longrightarrow> set (Add_loop_by selfeq a v h ! a) = set (h ! a) \<union> set v"
  by (induction v arbitrary: h) (auto simp: map_store_by_def list_ex_go_eq)

lemma Add_loop_by_take: "n \<le> a \<Longrightarrow> take n (Add_loop_by selfeq a v h) = take n h"
  by (induction v arbitrary: h) (simp_all add: map_store_by_def)

lemma Add_by_None: "Set_m s = None \<Longrightarrow>
  Add_by selfeq s v h = (s\<lparr>Set_m := Some (length h)\<rparr>, Add_loop_by selfeq (length h) v (h @ [[]]))"
  by (simp add: Add_by_def map_make_def)

lemma Add_by_Some: "Set_m s = Some a \<Longrightarrow> Add_by selfeq s v h = (s, Add_loop_by selfeq a v h)"
  by (simp add: Add_by_def)

lemma heap_ok_nth: "heap_ok selfeq h \<Longrightarrow> a < length h \<Longrightarrow> distinct (filter selfeq (h ! a))"
  by (simp add: heap_ok_def list_all_length)

lemma heap_ok_update:
  "heap_ok selfeq h \<Longrightarrow> distinct (filter selfeq xs) \<Longrightarrow> heap_ok selfeq (h[a := xs])"
  by (cases "a < length h") (auto simp: heap_ok_def list_all_length nth_list_update)

lemma heap_ok_snoc:
  "heap_ok selfeq h \<Longrightarrow> distinct (filter selfeq xs) \<Longrightarrow> heap_ok selfeq (h @ [xs])"
  by (simp add: heap_ok_def)

lemma heap_ok_map_store_by: "heap_ok selfeq h \<Longrightarrow> heap_ok selfeq (map_store_by selfeq h a w)"
proof (cases "a < length h")
  case True
  assume ok: "heap_ok selfeq h"
  have "distinct (filter selfeq (if list_ex (\<lambda>k. go_eq selfeq k w) (h ! a) then h ! a else h ! a @ [w]))"
    using heap_ok_nth [OF ok True] by (auto simp: list_ex_go_eq)
  with ok show ?thesis unfolding map_store_by_def by (rule heap_ok_update)
next
  case False
  assume "heap_ok selfeq h"
  with False show ?thesis by (simp add: map_store_by_def list_update_beyond)
qed

lemma heap_ok_Add_loop_by: "heap_ok selfeq h \<Longrightarrow> heap_ok selfeq (Add_loop_by selfeq a v h)"
  by (induction v arbitrary: h) (simp_all add: heap_ok_map_store_by)

section \<open>Equal\<close>

lemma map_len_keys: "map_len h p = length (map_keys h p)"
  by (simp add: map_len_def map_keys_def split: option.split)

lemma Contains_by_iff: "Contains_by selfeq h s v = (selfeq v \<and> v \<in> elems h s)"
  by (simp add: Contains_by_def map_has_by_def list_ex_go_eq elems_def)

lemma Equal_loop_iff:
  "Equal_loop selfeq h u vs = (\<forall>v\<in>set vs. selfeq v \<and> v \<in> elems h u)"
  by (induction vs) (auto simp: Contains_by_iff)

lemma keys_distinct:
  assumes "heap_ok selfeq h" "Set_ok h s" "\<forall>x\<in>elems h s. selfeq x"
  shows "distinct (map_keys h (Set_m s))"
proof (cases "Set_m s")
  case None
  then show ?thesis by (simp add: map_keys_def)
next
  case (Some a)
  with assms(2) have "a < length h" by (simp add: Set_ok_def)
  from heap_ok_nth [OF assms(1) this] have "distinct (filter selfeq (h ! a))" .
  moreover have "filter selfeq (h ! a) = h ! a"
    using assms(3) Some by (simp add: elems_def map_keys_def)
  ultimately show ?thesis using Some by (simp add: map_keys_def)
qed

lemma Equal_iff:
  assumes "heap_ok selfeq h" "Set_ok h s" "Set_ok h u" "iter_ok it"
  shows "Equal selfeq it h s u =
     (map_len h (Set_m s) = map_len h (Set_m u) \<and> (\<forall>x\<in>elems h s. selfeq x) \<and>
      elems h s = elems h u)"
proof -
  let ?xs = "map_keys h (Set_m s)" and ?ys = "map_keys h (Set_m u)"
  show ?thesis
  proof (cases "length ?xs = length ?ys")
    case False
    then show ?thesis by (simp add: Equal_def map_len_keys)
  next
    case True
    show ?thesis
    proof (cases "length ?xs = 0")
      case True
      with \<open>length ?xs = length ?ys\<close> have "?xs = []" "?ys = []" by simp_all
      then show ?thesis by (simp add: Equal_def map_len_keys elems_def)
    next
      case False
      have loop: "Equal_loop selfeq h u (range_map (it 0) h (Set_m s)) =
          (\<forall>v\<in>elems h s. selfeq v \<and> v \<in> elems h u)"
        by (simp add: Equal_loop_iff range_map_def iter_ok_set [OF assms(4)] elems_def)
      have "(\<forall>v\<in>elems h s. selfeq v \<and> v \<in> elems h u) =
          ((\<forall>x\<in>elems h s. selfeq x) \<and> elems h s = elems h u)"
      proof
        assume a: "\<forall>v\<in>elems h s. selfeq v \<and> v \<in> elems h u"
        then have all: "\<forall>x\<in>elems h s. selfeq x" by blast
        from keys_distinct [OF assms(1,2) all] have "card (elems h s) = length ?xs"
          by (simp add: elems_def distinct_card)
        moreover have "card (elems h u) \<le> length ?ys" by (simp add: elems_def card_length)
        ultimately have c: "card (elems h u) \<le> card (elems h s)" using True by simp
        have "finite (elems h u)" by (simp add: elems_def)
        moreover have "elems h s \<subseteq> elems h u" using a by blast
        ultimately have "elems h s = elems h u" using c by (rule card_seteq)
        with all show "(\<forall>x\<in>elems h s. selfeq x) \<and> elems h s = elems h u" by blast
      qed blast
      with loop False True show ?thesis by (simp add: Equal_def map_len_keys)
    qed
  qed
qed

lemma Equal_sets:
  assumes "heap_ok selfeq h" "Set_ok h s" "Set_ok h u" "iter_ok it" "\<forall>x\<in>elems h s. selfeq x"
  shows "Equal selfeq it h s u = (elems h s = elems h u)"
proof -
  have "map_len h (Set_m s) = map_len h (Set_m u)" if e: "elems h s = elems h u"
  proof -
    from e assms(5) have "\<forall>x\<in>elems h u. selfeq x" by simp
    from keys_distinct [OF assms(1,2,5)] keys_distinct [OF assms(1,3) this]
    have "length (map_keys h (Set_m s)) = card (elems h s)"
      "length (map_keys h (Set_m u)) = card (elems h u)"
      by (simp_all add: elems_def distinct_card)
    with e show ?thesis by (simp add: map_len_keys)
  qed
  with assms(5) show ?thesis unfolding Equal_iff [OF assms(1-4)] by blast
qed

text \<open>
  C10, amended: \<^verbatim>\<open>Equal\<close> is symmetric and transitive on all sets, whatever order each
  call visits the elements in, and \<^verbatim>\<open>s.Equal(s)\<close> holds exactly when every element of
  \<open>s\<close> is equal to itself; so \<^verbatim>\<open>Equal\<close> is an equivalence relation on the sets that hold
  no element \<open>x\<close> with \<^verbatim>\<open>x != x\<close>.
\<close>

theorem C10_Equal_partial_equivalence:
  assumes "heap_ok selfeq h" "Set_ok h s" "Set_ok h u" "Set_ok h t"
    and "iter_ok it1" "iter_ok it2" "iter_ok it3"
  shows "Equal selfeq it1 h s s = (\<forall>x\<in>elems h s. selfeq x) \<and>
         (Equal selfeq it1 h s u \<longrightarrow> Equal selfeq it2 h u s) \<and>
         (Equal selfeq it1 h s u \<and> Equal selfeq it2 h u t \<longrightarrow> Equal selfeq it3 h s t)"
proof (intro conjI impI)
  show "Equal selfeq it1 h s s = (\<forall>x\<in>elems h s. selfeq x)"
    by (simp add: Equal_iff [OF assms(1,2,2,5)])
next
  assume "Equal selfeq it1 h s u"
  then show "Equal selfeq it2 h u s"
    unfolding Equal_iff [OF assms(1,2,3,5)] Equal_iff [OF assms(1,3,2,6)] by auto
next
  assume "Equal selfeq it1 h s u \<and> Equal selfeq it2 h u t"
  then show "Equal selfeq it3 h s t"
    unfolding Equal_iff [OF assms(1,2,3,5)] Equal_iff [OF assms(1,3,4,6)]
      Equal_iff [OF assms(1,2,4,7)] by auto
qed

text \<open>
  C10, as the claim states it, fails: for the set of float64 that holds NaN,
  \<^verbatim>\<open>s.Equal(s)\<close> is false, because the lookup of NaN in the map of \<open>s\<close> finds no key.
\<close>

theorem C10_Equal_not_reflexive_counterexample:
  "\<not> Equal float64_selfeq it_id [[NaN]] \<lparr>Set_m = Some 0\<rparr> \<lparr>Set_m = Some 0\<rparr>"
  by (simp add: Equal_def map_len_def range_map_def map_keys_def it_id_def Contains_by_def
      map_has_by_def go_eq_def float64_selfeq_def)

text \<open>C10, amended, at three maps that hold \<open>{1, 2}\<close> in different stored orders and
  at a map that holds two NaN.\<close>

theorem C10_Equal_partial_equivalence_witness:
  "heap_ok float64_selfeq [[Whole 1, Whole 2], [Whole 2, Whole 1], [NaN, NaN], [Whole 1, Whole 2]] \<and>
   Set_ok [[Whole 1, Whole 2], [Whole 2, Whole 1], [NaN, NaN], [Whole 1, Whole 2]] \<lparr>Set_m = Some 0\<rparr> \<and>
   Set_ok [[Whole 1, Whole 2], [Whole 2, Whole 1], [NaN, NaN], [Whole 1, Whole 2]] \<lparr>Set_m = Some 1\<rparr> \<and>
   Set_ok [[Whole 1, Whole 2], [Whole 2, Whole 1], [NaN, NaN], [Whole 1, Whole 2]] \<lparr>Set_m = Some 2\<rparr> \<and>
   Set_ok [[Whole 1, Whole 2], [Whole 2, Whole 1], [NaN, NaN], [Whole 1, Whole 2]] \<lparr>Set_m = Some 3\<rparr> \<and>
   iter_ok (it_id :: float64 order) \<and> iter_ok (it_rev :: float64 order) \<and>
   Equal float64_selfeq it_id [[Whole 1, Whole 2], [Whole 2, Whole 1], [NaN, NaN], [Whole 1, Whole 2]]
     \<lparr>Set_m = Some 0\<rparr> \<lparr>Set_m = Some 0\<rparr> \<and>
   \<not> Equal float64_selfeq it_id [[Whole 1, Whole 2], [Whole 2, Whole 1], [NaN, NaN], [Whole 1, Whole 2]]
     \<lparr>Set_m = Some 2\<rparr> \<lparr>Set_m = Some 2\<rparr> \<and>
   Equal float64_selfeq it_id [[Whole 1, Whole 2], [Whole 2, Whole 1], [NaN, NaN], [Whole 1, Whole 2]]
     \<lparr>Set_m = Some 0\<rparr> \<lparr>Set_m = Some 1\<rparr> \<and>
   Equal float64_selfeq it_rev [[Whole 1, Whole 2], [Whole 2, Whole 1], [NaN, NaN], [Whole 1, Whole 2]]
     \<lparr>Set_m = Some 1\<rparr> \<lparr>Set_m = Some 0\<rparr> \<and>
   Equal float64_selfeq it_rev [[Whole 1, Whole 2], [Whole 2, Whole 1], [NaN, NaN], [Whole 1, Whole 2]]
     \<lparr>Set_m = Some 1\<rparr> \<lparr>Set_m = Some 3\<rparr> \<and>
   Equal float64_selfeq it_id [[Whole 1, Whole 2], [Whole 2, Whole 1], [NaN, NaN], [Whole 1, Whole 2]]
     \<lparr>Set_m = Some 0\<rparr> \<lparr>Set_m = Some 3\<rparr>"
proof -
  let ?h = "[[Whole 1, Whole 2], [Whole 2, Whole 1], [NaN, NaN], [Whole 1, Whole 2]]"
  let ?s = "\<lparr>Set_m = Some 0\<rparr>" and ?u = "\<lparr>Set_m = Some 1\<rparr>" and ?n = "\<lparr>Set_m = Some 2\<rparr>"
    and ?t = "\<lparr>Set_m = Some 3\<rparr>"
  have h: "heap_ok float64_selfeq ?h" by (simp add: heap_ok_def float64_selfeq_def)
  have ok: "Set_ok ?h ?s" "Set_ok ?h ?u" "Set_ok ?h ?t" and okn: "Set_ok ?h ?n"
    by (simp_all add: Set_ok_def)
  have es: "\<forall>x\<in>elems ?h ?s. float64_selfeq x" and en: "\<not> (\<forall>x\<in>elems ?h ?n. float64_selfeq x)"
    by (simp_all add: elems_def map_keys_def float64_selfeq_def)
  have su: "Equal float64_selfeq it_id ?h ?s ?u"
    by (simp add: Equal_def map_len_def range_map_def map_keys_def it_id_def Contains_by_def
        map_has_by_def go_eq_def float64_selfeq_def)
  have ut: "Equal float64_selfeq it_rev ?h ?u ?t"
    by (simp add: Equal_def map_len_def range_map_def map_keys_def it_rev_def Contains_by_def
        map_has_by_def go_eq_def float64_selfeq_def)
  from C10_Equal_partial_equivalence [OF h ok iter_ok_id iter_ok_rev iter_ok_id] su ut es
  have a: "Equal float64_selfeq it_id ?h ?s ?s \<and> Equal float64_selfeq it_rev ?h ?u ?s \<and>
      Equal float64_selfeq it_id ?h ?s ?t" by blast
  from C10_Equal_partial_equivalence [OF h okn okn okn iter_ok_id iter_ok_id iter_ok_id] en
  have b: "\<not> Equal float64_selfeq it_id ?h ?n ?n" by blast
  from a b h ok okn su ut iter_ok_id iter_ok_rev show ?thesis by blast
qed

section \<open>Clone and mutation of the clone\<close>

lemma private_above: "private_from n (c, h) \<Longrightarrow> above n (Set_m c)"
  by (auto simp: private_from_def above_def split: option.splits)

lemma map_delete_frame:
  "above n p \<Longrightarrow>
   length (map_delete selfeq h p w) = length h \<and> take n (map_delete selfeq h p w) = take n h"
  by (auto simp: above_def map_delete_def split: option.splits)

lemma map_clear_frame:
  "above n p \<Longrightarrow> length (map_clear h p) = length h \<and> take n (map_clear h p) = take n h"
  by (auto simp: above_def map_clear_def split: option.splits)

lemma Delete_loop_frame:
  "above n (Set_m c) \<Longrightarrow>
   length (Delete_loop selfeq c v h) = length h \<and> take n (Delete_loop selfeq c v h) = take n h"
  by (induction v arbitrary: h) (simp_all add: map_delete_frame)

lemma DeleteFunc_loop_frame:
  "above n (Set_m c) \<Longrightarrow>
   length (DeleteFunc_loop selfeq c d vs h) = length h \<and>
   take n (DeleteFunc_loop selfeq c d vs h) = take n h"
  by (induction vs arbitrary: h) (simp_all add: map_delete_frame)

lemma DeleteSeq_loop_frame:
  "above n (Set_m c) \<Longrightarrow>
   length (snd (DeleteSeq_loop selfeq c seq k h)) = length h \<and>
   take n (snd (DeleteSeq_loop selfeq c seq k h)) = take n h"
  by (induction seq arbitrary: h k) (simp_all add: map_delete_frame)

lemma private_same_length:
  "private_from n (c, h) \<Longrightarrow> length h' = length h \<Longrightarrow> private_from n (c, h')"
  by (auto simp: private_from_def split: option.splits)

lemma frame_keep:
  "private_from n (c, h) \<Longrightarrow> length h' = length h \<and> take n h' = take n h \<Longrightarrow>
   private_from n (c, h') \<and> take n (snd (c, h')) = take n h"
  by (simp add: private_same_length)

lemma Add_by_frame:
  assumes "private_from n (c, h)"
  shows "private_from n (Add_by selfeq c v h) \<and> take n (snd (Add_by selfeq c v h)) = take n h"
proof (cases "Set_m c")
  case None
  with assms show ?thesis
    by (simp add: Add_by_None private_from_def Add_loop_by_take)
next
  case (Some a)
  with assms show ?thesis
    by (simp add: Add_by_Some private_from_def Add_loop_by_take)
qed

lemma Add_each_by_frame:
  "private_from n (c, h) \<Longrightarrow>
   private_from n (Add_each_by selfeq c vs h) \<and>
   take n (snd (Add_each_by selfeq c vs h)) = take n h"
proof (induction vs arbitrary: c h)
  case Nil
  then show ?case by simp
next
  case (Cons v vs)
  obtain c1 h1 where a: "Add_by selfeq c [v] h = (c1, h1)" by (cases "Add_by selfeq c [v] h")
  with Add_by_frame [OF Cons.prems, of selfeq "[v]"] have p: "private_from n (c1, h1)"
    and t: "take n h1 = take n h" by simp_all
  from Cons.IH [OF p] t show ?case by (simp add: a)
qed

lemma UnmarshalJSON_by_frame:
  assumes "private_from n (c, h)"
  shows "private_from n (snd (UnmarshalJSON_by selfeq dec c b h)) \<and>
         take n (snd (snd (UnmarshalJSON_by selfeq dec c b h))) = take n h"
proof (cases "dec b")
  case (Inl e)
  with assms show ?thesis by (simp add: UnmarshalJSON_by_def)
next
  case (Inr i)
  show ?thesis
  proof (cases i)
    case None
    with Inr assms show ?thesis by (simp add: UnmarshalJSON_by_def private_from_def)
  next
    case (Some vs)
    have ab: "above n (Set_m c)" using assms by (rule private_above)
    have cl: "length (Clear c h) = length h" "take n (Clear c h) = take n h"
      using map_clear_frame [OF ab, of h] by (simp_all add: Clear_def)
    have "private_from n (c, Clear c h)" using assms cl(1) by (rule private_same_length)
    from Add_by_frame [OF this, of selfeq vs] cl(2) Inr Some show ?thesis
      by (cases "Add_by selfeq c vs (Clear c h)") (simp add: UnmarshalJSON_by_def)
  qed
qed

lemma mutate_frame:
  assumes "private_from n (c, h)"
  shows "private_from n (mutate selfeq it zero dec x (c, h)) \<and>
         take n (snd (mutate selfeq it zero dec x (c, h))) = take n h"
proof -
  have ab: "above n (Set_m c)" using assms by (rule private_above)
  note keep = frame_keep [OF assms]
  show ?thesis
  proof (cases x)
    case (MAdd v)
    with Add_by_frame [OF assms] show ?thesis by simp
  next
    case (MAddSeq seq)
    with Add_each_by_frame [OF assms] show ?thesis by (simp add: AddSeq_def)
  next
    case MClear
    with keep [OF map_clear_frame [OF ab]] show ?thesis by (simp add: Clear_def)
  next
    case (MDelete v)
    with keep [OF Delete_loop_frame [OF ab]] show ?thesis by (simp add: Delete_def Let_def)
  next
    case (MDeleteFunc del)
    show ?thesis
    proof (cases del)
      case None
      with MDeleteFunc assms show ?thesis by (simp add: DeleteFunc_def)
    next
      case (Some d)
      with MDeleteFunc keep [OF DeleteFunc_loop_frame [OF ab]] show ?thesis
        by (simp add: DeleteFunc_def Let_def)
    qed
  next
    case (MDeleteSeq seq)
    with keep [OF DeleteSeq_loop_frame [OF ab]] show ?thesis by (simp add: DeleteSeq_def)
  next
    case MPop
    with keep [OF map_delete_frame [OF ab]] assms show ?thesis by (simp add: Pop_def Let_def)
  next
    case (MUnmarshalJSON b)
    with UnmarshalJSON_by_frame [OF assms] show ?thesis by simp
  qed
qed

lemma mutate_all_frame:
  "private_from n ch \<Longrightarrow>
   private_from n (mutate_all selfeq it zero dec ms ch) \<and>
   take n (snd (mutate_all selfeq it zero dec ms ch)) = take n (snd ch)"
proof (induction ms arbitrary: ch)
  case Nil
  then show ?case by simp
next
  case (Cons x xs)
  obtain c h where ch: "ch = (c, h)" by (cases ch)
  from mutate_frame [of n c h selfeq it zero dec x] Cons.prems ch
  have p: "private_from n (mutate selfeq it zero dec x ch)"
    and t: "take n (snd (mutate selfeq it zero dec x ch)) = take n (snd ch)" by simp_all
  from Cons.IH [OF p] t show ?case by simp
qed

lemma Clone_private: "Set_ok h s \<Longrightarrow> private_from (length h) (Clone s h)"
  by (auto simp: Clone_def maps_Clone_def private_from_def split: option.splits)

lemma Clone_take: "take (length h) (snd (Clone s h)) = h"
  by (auto simp: Clone_def maps_Clone_def split: option.splits)

lemma map_keys_take:
  "Set_ok h s \<Longrightarrow> take (length h) h' = h \<Longrightarrow> map_keys h' (Set_m s) = map_keys h (Set_m s)"
  by (metis append_take_drop_id map_keys_append)

lemma Clone_keys:
  "Set_ok h s \<Longrightarrow>
   map_keys (snd (Clone s h)) (Set_m (fst (Clone s h))) = map_keys h (Set_m s) \<and>
   map_keys (snd (Clone s h)) (Set_m s) = map_keys h (Set_m s)"
  by (auto simp: Clone_def maps_Clone_def map_keys_def Set_ok_def nth_append split: option.splits)

lemma Equal_same_keys:
  assumes "iter_ok it" "map_keys h (Set_m u) = map_keys h (Set_m s)"
  shows "Equal selfeq it h s u = (\<forall>x\<in>elems h s. selfeq x)"
proof (cases "map_keys h (Set_m s) = []")
  case True
  then show ?thesis by (simp add: Equal_def map_len_keys assms(2) elems_def)
next
  case False
  have "Equal_loop selfeq h u (range_map (it 0) h (Set_m s)) = (\<forall>x\<in>elems h s. selfeq x)"
    by (auto simp: Equal_loop_iff range_map_def iter_ok_set [OF assms(1)] elems_def assms(2))
  with False show ?thesis by (simp add: Equal_def map_len_keys assms(2))
qed

text \<open>
  C8, amended: a set is \<^verbatim>\<open>Equal\<close> to its clone exactly when every element of the set is
  equal to itself; the clone is a zero set exactly when the set is one; and after any
  sequence of mutating calls on the clone (\<^verbatim>\<open>Add\<close>, \<^verbatim>\<open>AddSeq\<close>, \<^verbatim>\<open>Clear\<close>, \<^verbatim>\<open>Delete\<close>,
  \<^verbatim>\<open>DeleteFunc\<close>, \<^verbatim>\<open>DeleteSeq\<close>, \<^verbatim>\<open>Pop\<close>, \<^verbatim>\<open>UnmarshalJSON\<close>) the keys of the map of the
  original set are what they were before the clone was made.
\<close>

theorem C8_Clone_independent:
  assumes "iter_ok it" "Set_ok h s"
  shows "Equal selfeq it (snd (Clone s h)) s (fst (Clone s h)) = (\<forall>x\<in>elems h s. selfeq x) \<and>
         IsZero (fst (Clone s h)) = IsZero s \<and>
         map_keys (snd (mutate_all selfeq it' zero dec ms (Clone s h))) (Set_m s)
           = map_keys h (Set_m s)"
proof (intro conjI)
  from Clone_keys [OF assms(2)]
  have k: "map_keys (snd (Clone s h)) (Set_m (fst (Clone s h))) = map_keys (snd (Clone s h)) (Set_m s)"
    and e: "elems (snd (Clone s h)) s = elems h s"
    by (simp_all add: elems_def)
  from Equal_same_keys [OF assms(1) k, of selfeq] e
  show "Equal selfeq it (snd (Clone s h)) s (fst (Clone s h)) = (\<forall>x\<in>elems h s. selfeq x)"
    by simp
next
  show "IsZero (fst (Clone s h)) = IsZero s"
    by (simp add: Clone_def maps_Clone_def IsZero_def split: option.split)
next
  from mutate_all_frame [OF Clone_private [OF assms(2)], of selfeq it' zero dec ms]
  have "take (length h) (snd (mutate_all selfeq it' zero dec ms (Clone s h))) = h"
    by (simp add: Clone_take)
  with assms(2) show "map_keys (snd (mutate_all selfeq it' zero dec ms (Clone s h))) (Set_m s)
           = map_keys h (Set_m s)" by (rule map_keys_take)
qed

text \<open>
  C8, as the claim states it, fails: the set of float64 that holds NaN is not \<^verbatim>\<open>Equal\<close>
  to its clone.
\<close>

theorem C8_Clone_not_Equal_counterexample:
  "\<not> Equal float64_selfeq it_id (snd (Clone \<lparr>Set_m = Some 0\<rparr> [[NaN]])) \<lparr>Set_m = Some 0\<rparr>
       (fst (Clone \<lparr>Set_m = Some 0\<rparr> [[NaN]]))"
  by (simp add: Clone_def maps_Clone_def Equal_def map_len_def range_map_def map_keys_def
      it_id_def Contains_by_def map_has_by_def go_eq_def float64_selfeq_def)

text \<open>C8, amended, at the set \<open>{1, 2, 3}\<close> of int, its clone mutated five times, and
  at the zero set.\<close>

theorem C8_Clone_independent_witness:
  "iter_ok (it_rev :: int order) \<and>
   Set_ok [[1, 2, 3 :: int]] \<lparr>Set_m = Some 0\<rparr> \<and>
   Set_ok [[1, 2, 3 :: int]] zero_Set \<and>
   Equal (\<lambda>x. True) it_rev (snd (Clone \<lparr>Set_m = Some 0\<rparr> [[1, 2, 3 :: int]])) \<lparr>Set_m = Some 0\<rparr>
     (fst (Clone \<lparr>Set_m = Some 0\<rparr> [[1, 2, 3 :: int]])) \<and>
   IsZero (fst (Clone zero_Set [[1, 2, 3 :: int]])) \<and>
   \<not> IsZero (fst (Clone \<lparr>Set_m = Some 0\<rparr> [[1, 2, 3 :: int]])) \<and>
   map_keys (snd (mutate_all (\<lambda>x. True) it_rev 0 json_Unmarshal_int
                [MAdd [7], MDelete [1], MPop, MClear, MUnmarshalJSON ''[4,5]'']
                (Clone \<lparr>Set_m = Some 0\<rparr> [[1, 2, 3 :: int]]))) (Set_m \<lparr>Set_m = Some 0\<rparr>)
     = [1, 2, 3]"
proof -
  let ?h = "[[1, 2, 3 :: int]]" and ?s = "\<lparr>Set_m = Some 0\<rparr>"
  have ok: "Set_ok ?h ?s" "Set_ok ?h zero_Set" by (simp_all add: Set_ok_def zero_Set_def)
  have z: "IsZero zero_Set" "\<not> IsZero ?s" by (simp_all add: IsZero_def zero_Set_def)
  have k: "map_keys ?h (Set_m ?s) = [1, 2, 3]" by (simp add: map_keys_def)
  note a = C8_Clone_independent [OF iter_ok_rev ok(1), of "\<lambda>x. True" it_rev 0 json_Unmarshal_int
      "[MAdd [7], MDelete [1], MPop, MClear, MUnmarshalJSON ''[4,5]'']"]
  note b = C8_Clone_independent [OF iter_ok_rev ok(2), of "\<lambda>x. True"]
  from a b z k ok iter_ok_rev show ?thesis by simp
qed

section \<open>Serialization\<close>

lemma MarshalJSON_loop_append: "MarshalJSON_loop v xs = v @ xs"
  by (induction xs arbitrary: v) simp_all

lemma replace_spec:
  assumes "heap_ok selfeq h" "Set_ok h t" "Set_ok h s" "Add_by selfeq t v (Clear t h) = (t1, h1)"
  shows "heap_ok selfeq h1 \<and> Set_ok h1 t1 \<and> Set_ok h1 s \<and> \<not> IsZero t1 \<and>
         elems h1 t1 = set v \<and> (elems h1 s = elems h s \<or> elems h1 s = set v)"
proof (cases "Set_m t")
  case None
  then have h1: "h1 = Add_loop_by selfeq (length h) v (h @ [[]])"
    and t1: "Set_m t1 = Some (length h)"
    using assms(4) by (auto simp: Clear_def map_clear_def Add_by_None)
  have ok: "heap_ok selfeq h1"
    unfolding h1 using assms(1) by (simp add: heap_ok_Add_loop_by heap_ok_snoc)
  have e: "elems h1 t1 = set v"
    using set_Add_loop_by [of "length h" "h @ [[]]" selfeq v]
    by (simp add: elems_def map_keys_def t1 h1)
  have s: "map_keys h1 (Set_m s) = map_keys h (Set_m s)"
    using assms(3)
    by (auto simp: h1 map_keys_def Set_ok_def Add_loop_by_other nth_append split: option.splits)
  have "Set_ok h1 s" using assms(3) by (auto simp: Set_ok_def h1 split: option.splits)
  with ok e s show ?thesis by (simp add: Set_ok_def IsZero_def t1 h1 elems_def)
next
  case (Some c)
  then have h1: "h1 = Add_loop_by selfeq c v (h[c := []])" and t1: "t1 = t"
    using assms(4) by (auto simp: Clear_def map_clear_def Add_by_Some)
  have c: "c < length h" using assms(2) Some by (simp add: Set_ok_def)
  have ok: "heap_ok selfeq h1"
    unfolding h1 using assms(1) by (simp add: heap_ok_Add_loop_by heap_ok_update)
  have e: "elems h1 t1 = set v"
    using set_Add_loop_by [of c "h[c := []]" selfeq v] c
    by (simp add: elems_def map_keys_def t1 h1 Some)
  have s: "elems h1 s = elems h s \<or> elems h1 s = set v"
  proof (cases "Set_m s = Some c")
    case True
    with e show ?thesis by (simp add: elems_def t1 Some)
  next
    case False
    then have "map_keys h1 (Set_m s) = map_keys h (Set_m s)"
      by (auto simp: h1 map_keys_def Add_loop_by_other split: option.splits)
    then show ?thesis by (simp add: elems_def)
  qed
  have "Set_ok h1 s" "Set_ok h1 t1"
    using assms(2,3) by (auto simp: Set_ok_def h1 t1 split: option.splits)
  with ok e s show ?thesis by (simp add: IsZero_def t1 Some)
qed

text \<open>The round trip through any codec of the element type that round-trips the slice
  of a set whose elements are equal to themselves.\<close>

lemma roundtrip_any_codec:
  assumes "iter_ok it" "iter_ok it'" "heap_ok selfeq h" "Set_ok h s" "Set_ok h t"
    and self: "\<forall>x\<in>elems h s. selfeq x"
    and null: "json_Unmarshal ''null'' = Inr None"
    and rt: "\<not> IsZero s \<Longrightarrow> roundtrips json_Marshal json_Unmarshal (All_go (it 0) h s)"
  shows "\<exists>b t' h'. MarshalJSON json_Marshal it h s = Inr b \<and>
           UnmarshalJSON_by selfeq json_Unmarshal t b h = (None, t', h') \<and>
           Equal selfeq it' h' t' s \<and> elems h' t' = elems h s \<and> IsZero t' = IsZero s"
proof (cases "IsZero s")
  case True
  then have m: "MarshalJSON json_Marshal it h s = Inr ''null''"
    by (simp add: MarshalJSON_def IsZero_def)
  have u: "UnmarshalJSON_by selfeq json_Unmarshal t ''null'' h = (None, t\<lparr>Set_m := None\<rparr>, h)"
    by (simp add: UnmarshalJSON_by_def null)
  have "Equal selfeq it' h (t\<lparr>Set_m := None\<rparr>) s"
    using True by (simp add: Equal_def map_len_def IsZero_def)
  moreover have "elems h (t\<lparr>Set_m := None\<rparr>) = elems h s"
    using True by (simp add: elems_def map_keys_def IsZero_def)
  moreover have "IsZero (t\<lparr>Set_m := None\<rparr>) = IsZero s"
    using True by (simp add: IsZero_def)
  ultimately show ?thesis using m u by blast
next
  case False
  let ?v = "All_go (it 0) h s"
  from rt [OF False] obtain b where enc: "json_Marshal ?v = Inr b"
    and dec: "json_Unmarshal b = Inr (Some ?v)" by (auto simp: roundtrips_def)
  from False obtain a0 where "Set_m s = Some a0" by (auto simp: IsZero_def)
  then have m: "MarshalJSON json_Marshal it h s = Inr b"
    using enc by (simp add: MarshalJSON_def MarshalJSON_loop_append)
  obtain t1 h1 where a: "Add_by selfeq t ?v (Clear t h) = (t1, h1)"
    by (cases "Add_by selfeq t ?v (Clear t h)")
  have u: "UnmarshalJSON_by selfeq json_Unmarshal t b h = (None, t1, h1)"
    by (simp add: UnmarshalJSON_by_def dec a)
  have v: "set ?v = elems h s" using assms(1) by (rule set_All_go)
  from replace_spec [OF assms(3) assms(5) assms(4) a]
  have ok: "heap_ok selfeq h1" "Set_ok h1 t1" "Set_ok h1 s" and nz: "\<not> IsZero t1"
    and e: "elems h1 t1 = elems h s" and s: "elems h1 s = elems h s"
    by (auto simp: v)
  have "\<forall>x\<in>elems h1 t1. selfeq x" using self e by simp
  from Equal_sets [OF ok assms(2) this] have "Equal selfeq it' h1 t1 s" using e s by simp
  with u m e nz False show ?thesis by blast
qed

text \<open>
  C4, amended: for a set \<open>s\<close> whose elements are equal to themselves, and a codec of the
  element type that decodes \<^verbatim>\<open>null\<close> to a nil slice and decodes the encoding of the
  slice \<^verbatim>\<open>MarshalJSON\<close> builds back to that slice, \<^verbatim>\<open>MarshalJSON\<close> succeeds on \<open>s\<close>,
  \<^verbatim>\<open>UnmarshalJSON\<close> of its output into any set \<open>t\<close> succeeds, and the resulting set is
  \<^verbatim>\<open>Equal\<close> to \<open>s\<close>, holds the elements of \<open>s\<close>, and is a zero set exactly when \<open>s\<close> is
  one.
\<close>

theorem C4_roundtrip_for_codec:
  assumes "iter_ok it" "iter_ok it'" "heap_ok selfeq h" "Set_ok h s" "Set_ok h t"
    and self: "\<forall>x\<in>elems h s. selfeq x"
    and null: "json_Unmarshal ''null'' = Inr None"
    and rt: "\<not> IsZero s \<Longrightarrow> roundtrips json_Marshal json_Unmarshal (All_go (it 0) h s)"
  shows "\<exists>b t' h'. MarshalJSON json_Marshal it h s = Inr b \<and>
           UnmarshalJSON_by selfeq json_Unmarshal t b h = (None, t', h') \<and>
           Equal selfeq it' h' t' s \<and> elems h' t' = elems h s \<and> IsZero t' = IsZero s"
  using assms(1-7) by (rule roundtrip_any_codec) (rule rt)

text \<open>
  C4, as the claim states it, fails: the set of float64 that holds NaN has no
  serialization, \<^verbatim>\<open>MarshalJSON\<close> returns the error of \<^verbatim>\<open>json.Marshal\<close>.
\<close>

theorem C4_roundtrip_NaN_counterexample:
  "MarshalJSON json_Marshal_float64 it_id [[NaN]] \<lparr>Set_m = Some 0\<rparr> = Inl EncodeError"
  by (simp add: MarshalJSON_def All_go_def range_map_def map_keys_def it_id_def
      json_Marshal_float64_def)

text \<open>
  C2, amended: when \<^verbatim>\<open>json.Unmarshal\<close> reports an error, \<^verbatim>\<open>UnmarshalJSON\<close> returns that
  error and leaves the set and the store as they were: the prior contents are kept.
\<close>

theorem C2_failed_decode:
  assumes "json_Unmarshal b = Inl err"
  shows "UnmarshalJSON json_Unmarshal s b h = (Some err, s, h)"
  using assms by (simp add: UnmarshalJSON_def)

text \<open>
  C2, as the claim states it, fails: decoding the object \<^verbatim>\<open>{}\<close> into the set \<open>{1, 2}\<close>
  returns an error and the set still holds its two elements.
\<close>

theorem C2_failed_decode_counterexample:
  "UnmarshalJSON json_Unmarshal_int \<lparr>Set_m = Some 0\<rparr> ''{}'' [[1, 2]]
     = (Some DecodeError, \<lparr>Set_m = Some 0\<rparr>, [[1, 2]]) \<and>
   Size [[1, 2 :: int]] \<lparr>Set_m = Some 0\<rparr> = 2"
  by (simp add: UnmarshalJSON_def json_Unmarshal_int_def trim_def is_ws_def Size_def map_len_def)

text \<open>C2, amended, at malformed text decoded into \<open>{7}\<close> and at a scalar decoded into
  a zero set.\<close>

theorem C2_failed_decode_witness:
  "json_Unmarshal_int ''[1,'' = Inl DecodeError \<and>
   UnmarshalJSON json_Unmarshal_int \<lparr>Set_m = Some 0\<rparr> ''[1,'' [[7]]
     = (Some DecodeError, \<lparr>Set_m = Some 0\<rparr>, [[7]]) \<and>
   json_Unmarshal_int ''5'' = Inl DecodeError \<and>
   UnmarshalJSON json_Unmarshal_int zero_Set ''5'' [] = (Some DecodeError, zero_Set, [])"
proof -
  have a: "json_Unmarshal_int ''[1,'' = Inl DecodeError"
    and b: "json_Unmarshal_int ''5'' = Inl DecodeError"
    by (simp_all add: json_Unmarshal_int_def trim_def is_ws_def)
  from C2_failed_decode [of json_Unmarshal_int "''[1,''" DecodeError, OF a]
    C2_failed_decode [of json_Unmarshal_int "''5''" DecodeError, OF b] a b
  show ?thesis by simp
qed


text \<open>C4, amended, for sets of int with the codec for \<^verbatim>\<open>[]int\<close>: the set \<open>{3, 1, 2}\<close>
  decoded into a set that held \<open>{9}\<close>.\<close>

theorem C4_roundtrip_for_codec_witness:
  "iter_ok (it_rev :: int order) \<and> iter_ok (it_id :: int order) \<and>
   heap_ok (\<lambda>x. True) [[3, 1, 2], [9 :: int]] \<and>
   Set_ok [[3, 1, 2], [9 :: int]] \<lparr>Set_m = Some 0\<rparr> \<and>
   Set_ok [[3, 1, 2], [9 :: int]] \<lparr>Set_m = Some 1\<rparr> \<and>
   json_Unmarshal_int ''null'' = Inr None \<and>
   roundtrips json_Marshal_int json_Unmarshal_int
     (All_go (it_rev 0) [[3, 1, 2], [9 :: int]] \<lparr>Set_m = Some 0\<rparr>) \<and>
   (\<exists>b t' h'.
      MarshalJSON json_Marshal_int it_rev [[3, 1, 2], [9]] \<lparr>Set_m = Some 0\<rparr> = Inr b \<and>
      UnmarshalJSON_by (\<lambda>x. True) json_Unmarshal_int \<lparr>Set_m = Some 1\<rparr> b [[3, 1, 2], [9]]
        = (None, t', h') \<and>
      Equal (\<lambda>x. True) it_id h' t' \<lparr>Set_m = Some 0\<rparr> \<and>
      elems h' t' = elems [[3, 1, 2], [9]] \<lparr>Set_m = Some 0\<rparr> \<and>
      IsZero t' = IsZero \<lparr>Set_m = Some 0\<rparr>)"
proof -
  let ?h = "[[3, 1, 2], [9 :: int]]"
  let ?s = "\<lparr>Set_m = Some 0\<rparr>" and ?t = "\<lparr>Set_m = Some 1\<rparr>"
  have h: "heap_ok (\<lambda>x. True) ?h" by (simp add: heap_ok_def)
  have ok: "Set_ok ?h ?s" "Set_ok ?h ?t" by (simp_all add: Set_ok_def)
  have self: "\<forall>x\<in>elems ?h ?s. (\<lambda>x. True) x" by simp
  have null: "json_Unmarshal_int ''null'' = Inr None"
    by (simp add: json_Unmarshal_int_def trim_def is_ws_def)
  have v: "All_go (it_rev 0) ?h ?s = [2, 1, 3]"
    by (simp add: All_go_def range_map_def map_keys_def it_rev_def)
  have enc: "json_Marshal_int [2, 1, 3] = Inr ''[2,1,3]''" by code_simp
  have dec: "json_Unmarshal_int ''[2,1,3]'' = Inr (Some [2, 1, 3])" by code_simp
  have rt: "roundtrips json_Marshal_int json_Unmarshal_int (All_go (it_rev 0) ?h ?s)"
    unfolding roundtrips_def v using enc dec by blast
  from C4_roundtrip_for_codec [OF iter_ok_rev iter_ok_id h ok self null rt]
    h ok null rt iter_ok_rev iter_ok_id
  show ?thesis by blast
qed

text \<open>The values in that run: the bytes, and the store after decoding.\<close>

theorem int_codec_example:
  "MarshalJSON json_Marshal_int it_rev [[3, 1, 2], [9]] \<lparr>Set_m = Some 0\<rparr> = Inr ''[2,1,3]'' \<and>
   UnmarshalJSON_by (\<lambda>x. True) json_Unmarshal_int \<lparr>Set_m = Some 1\<rparr> ''[2,1,3]'' [[3, 1, 2], [9]]
     = (None, \<lparr>Set_m = Some 1\<rparr>, [[3, 1, 2], [2, 1, 3]])"
  by code_simp

section \<open>The codec for slices of int round-trips\<close>

lemma is_digit_nat: "is_digit c = (48 \<le> (of_char c :: nat) \<and> (of_char c :: nat) \<le> 57)"
  by (simp add: is_digit_def less_eq_char_def)

lemma num_char_plain:
  "num_char c \<Longrightarrow> \<not> is_ws c \<and> c \<noteq> CHR '','' \<and> c \<noteq> CHR ''n''"
  by (auto simp: num_char_def is_digit_nat is_ws_def)

lemma is_digit_not_minus: "is_digit c \<Longrightarrow> c \<noteq> CHR ''-''"
  by (auto simp: is_digit_nat)

lemma digit_char_props:
  assumes "d < 10"
  shows "is_digit (digit_char d)" "digit_val (digit_char d) = int d"
    "(digit_char d = CHR ''0'') = (d = 0)"
proof -
  have o: "(of_char (digit_char d) :: nat) = 48 + d"
    using assms by (simp add: digit_char_def)
  show "is_digit (digit_char d)" using assms by (simp add: is_digit_nat o)
  show "digit_val (digit_char d) = int d" by (simp add: digit_val_def o)
  have "(digit_char d = CHR ''0'') = ((of_char (digit_char d) :: nat) = of_char CHR ''0'')"
    by (simp only: of_char_eq_iff)
  then show "(digit_char d = CHR ''0'') = (d = 0)" by (simp add: o)
qed

lemma show_nat_small: "n < 10 \<Longrightarrow> show_nat n = [digit_char n]"
  by (subst show_nat.simps) simp

lemma show_nat_large:
  "\<not> n < 10 \<Longrightarrow> show_nat n = show_nat (n div 10) @ [digit_char (n mod 10)]"
  by (subst show_nat.simps) simp

lemma show_nat_digits: "list_all is_digit (show_nat n) \<and> show_nat n \<noteq> []"
proof (induction n rule: show_nat.induct)
  case (1 n)
  show ?case
  proof (cases "n < 10")
    case True
    then show ?thesis by (simp add: show_nat_small digit_char_props)
  next
    case False
    with 1 show ?thesis by (simp add: show_nat_large digit_char_props)
  qed
qed

lemma show_nat_value: "foldl (\<lambda>k c. 10 * k + digit_val c) 0 (show_nat n) = int n"
proof (induction n rule: show_nat.induct)
  case (1 n)
  show ?case
  proof (cases "n < 10")
    case True
    then show ?thesis by (simp add: show_nat_small digit_char_props)
  next
    case False
    have "10 * int (n div 10) + int (n mod 10) = int n" by presburger
    with False 1 show ?thesis by (simp add: show_nat_large digit_char_props)
  qed
qed

lemma show_nat_hd: "0 < n \<Longrightarrow> hd (show_nat n) \<noteq> CHR ''0''"
proof (induction n rule: show_nat.induct)
  case (1 n)
  show ?case
  proof (cases "n < 10")
    case True
    with 1(2) show ?thesis by (simp add: show_nat_small digit_char_props)
  next
    case False
    then have "0 < n div 10" by simp
    with False 1(1) have "hd (show_nat (n div 10)) \<noteq> CHR ''0''" by simp
    with False show_nat_digits [of "n div 10"] show ?thesis
      by (simp add: show_nat_large)
  qed
qed

lemma nat_lit_show_nat: "nat_lit (show_nat n) = Some (int n)"
proof -
  obtain d r where dr: "show_nat n = d # r"
    using show_nat_digits [of n] by (cases "show_nat n") auto
  have z: "\<not> (d = CHR ''0'' \<and> r \<noteq> [])"
  proof (cases "n = 0")
    case True
    with dr show ?thesis by (simp add: show_nat_small)
  next
    case False
    with show_nat_hd [of n] dr show ?thesis by simp
  qed
  have "list_all is_digit (d # r)" using show_nat_digits [of n] dr by simp
  with z show ?thesis
    using show_nat_value [of n] by (simp add: nat_lit_def dr)
qed

lemma Sprint_int_chars: "list_all num_char (Sprint_int n) \<and> Sprint_int n \<noteq> []"
  using show_nat_digits [of "nat n"] show_nat_digits [of "nat (- n)"]
  by (auto simp: Sprint_int_def num_char_def list_all_iff)

lemma int_lit_Sprint_int: "int_lit (Sprint_int n) = Some n"
proof (cases "n < 0")
  case True
  then show ?thesis by (simp add: Sprint_int_def int_lit_def nat_lit_show_nat)
next
  case False
  obtain d r where dr: "show_nat (nat n) = d # r"
    using show_nat_digits [of "nat n"] by (cases "show_nat (nat n)") auto
  with show_nat_digits [of "nat n"] have "d \<noteq> CHR ''-''" by (simp add: is_digit_not_minus)
  with False dr nat_lit_show_nat [of "nat n"] show ?thesis
    by (simp add: Sprint_int_def int_lit_def)
qed

lemma dropWhile_none: "\<forall>c\<in>set xs. \<not> P c \<Longrightarrow> dropWhile P xs = xs"
  by (cases xs) simp_all

lemma trim_plain: "list_all (\<lambda>c. \<not> is_ws c) p \<Longrightarrow> trim p = p"
  by (simp add: trim_def list_all_iff dropWhile_none)

lemma elem_int_Sprint_int:
  assumes "- (2 ^ 63) \<le> n" "n \<le> 2 ^ 63 - 1"
  shows "elem_int (trim (Sprint_int n)) = Some n"
proof -
  have c: "list_all num_char (Sprint_int n)" "Sprint_int n \<noteq> []"
    using Sprint_int_chars [of n] by simp_all
  then have "list_all (\<lambda>c. \<not> is_ws c) (Sprint_int n)"
    by (auto simp: list_all_iff num_char_plain)
  then have t: "trim (Sprint_int n) = Sprint_int n" by (rule trim_plain)
  have "Sprint_int n \<noteq> ''null''"
    using c num_char_plain [of "CHR ''n''"] by (auto simp: list_all_iff)
  with assms show ?thesis by (simp add: t elem_int_def int_lit_Sprint_int)
qed

lemma split_commas_plain:
  "CHR '','' \<notin> set p \<Longrightarrow> split_commas acc (p @ rest) = split_commas (rev p @ acc) rest"
  by (induction p arbitrary: acc) auto

lemma split_commas_Join:
  "ps \<noteq> [] \<Longrightarrow> \<forall>p\<in>set ps. CHR '','' \<notin> set p \<Longrightarrow>
   split_commas acc (strings_Join ps '','') = (rev acc @ hd ps) # tl ps"
proof (induction ps "'',''" arbitrary: acc rule: strings_Join.induct)
  case 1
  then show ?case by simp
next
  case (2 x)
  then show ?case using split_commas_plain [of x acc "[]"] by simp
next
  case (3 x y r)
  have "split_commas acc (x @ '','' @ strings_Join (y # r) '','')
      = split_commas (rev x @ acc) ('','' @ strings_Join (y # r) '','')"
    using 3(3) by (simp add: split_commas_plain)
  also have "\<dots> = (rev acc @ x) # split_commas [] (strings_Join (y # r) '','')" by simp
  also have "split_commas [] (strings_Join (y # r) '','') = y # r"
    using 3(1) [of "[]"] 3(3) by simp
  finally show ?case by simp
qed

lemma Join_chars:
  "\<forall>p\<in>set ps. list_all P p \<Longrightarrow> list_all P sep \<Longrightarrow> list_all P (strings_Join ps sep)"
  by (induction ps sep rule: strings_Join.induct) simp_all

lemma Join_nonempty: "ps \<noteq> [] \<Longrightarrow> \<forall>p\<in>set ps. p \<noteq> [] \<Longrightarrow> strings_Join ps sep \<noteq> []"
  by (induction ps sep rule: strings_Join.induct) simp_all

lemma int_codec_roundtrips:
  assumes "\<forall>x\<in>set v. - (2 ^ 63) \<le> x \<and> x \<le> 2 ^ 63 - 1"
  shows "roundtrips json_Marshal_int json_Unmarshal_int v"
proof -
  let ?ps = "map Sprint_int v"
  let ?J = "strings_Join ?ps '',''"
  let ?b = "''['' @ ?J @ '']''"
  have t: "trim ?b = ?b" by (simp add: trim_def is_ws_def dropWhile_append)
  have dec: "json_Unmarshal_int ?b = Inr (Some v)"
  proof (cases "v = []")
    case True
    then show ?thesis by (simp add: json_Unmarshal_int_def trim_def is_ws_def)
  next
    case False
    have pl: "\<not> is_ws c \<and> c \<noteq> CHR '',''" if "c \<in> set (Sprint_int n)" for c n
      using that Sprint_int_chars [of n] num_char_plain [of c] by (simp add: list_all_iff)
    have plain: "\<forall>p\<in>set ?ps. list_all (\<lambda>c. \<not> is_ws c) p"
      using pl by (auto simp: list_all_iff)
    have nocomma: "\<forall>p\<in>set ?ps. CHR '','' \<notin> set p"
      using pl by auto
    have ne: "?ps \<noteq> []" "\<forall>p\<in>set ?ps. p \<noteq> []" using False Sprint_int_chars by auto
    have "list_all (\<lambda>c. \<not> is_ws c) ?J"
      using plain by (rule Join_chars) (simp add: is_ws_def)
    then have tj: "trim ?J = ?J" by (rule trim_plain)
    have jn: "?J \<noteq> []" using ne by (rule Join_nonempty)
    have sp: "split_commas [] ?J = ?ps"
      using split_commas_Join [OF ne(1) nocomma, of "[]"] ne(1) by simp
    have "map (\<lambda>p. elem_int (trim p)) ?ps = map Some v"
      using assms by (simp add: elem_int_Sprint_int)
    moreover have "those (map Some v) = Some v" by (induction v) simp_all
    ultimately have th: "those (map (\<lambda>p. elem_int (trim p)) (split_commas [] ?J)) = Some v"
      by (simp only: sp)
    show ?thesis
      unfolding json_Unmarshal_int_def t
      using tj jn th by (simp add: Let_def)
  qed
  then show ?thesis by (auto simp: roundtrips_def json_Marshal_int_def)
qed

text \<open>Hence the round trip holds for every set of 64-bit integers, with no assumption
  left on the codec.\<close>

lemma roundtrip_int_sets:
  assumes "iter_ok it" "iter_ok it'" "heap_ok (\<lambda>x. True) h" "Set_ok h s" "Set_ok h t"
    and "\<forall>x\<in>elems h s. - (2 ^ 63) \<le> x \<and> x \<le> 2 ^ 63 - 1"
  shows "\<exists>b t' h'. MarshalJSON json_Marshal_int it h s = Inr b \<and>
           UnmarshalJSON_by (\<lambda>x. True) json_Unmarshal_int t b h = (None, t', h') \<and>
           Equal (\<lambda>x. True) it' h' t' s \<and> elems h' t' = elems h s \<and> IsZero t' = IsZero s"
proof -
  have null: "json_Unmarshal_int ''null'' = Inr None"
    by (simp add: json_Unmarshal_int_def trim_def is_ws_def)
  have self: "\<forall>x\<in>elems h s. (\<lambda>x. True) x" by simp
  have "set (All_go (it 0) h s) = elems h s" using assms(1) by (rule set_All_go)
  with assms(6) have "\<forall>x\<in>set (All_go (it 0) h s). - (2 ^ 63) \<le> x \<and> x \<le> 2 ^ 63 - 1"
    by simp
  then have "roundtrips json_Marshal_int json_Unmarshal_int (All_go (it 0) h s)"
    by (rule int_codec_roundtrips)
  with assms(1-5) self null show ?thesis by (rule roundtrip_any_codec)
qed

end
